theory Spec2Isabelle
  imports Complex_Main "HOL-Library.Word" "HOL-Library.Log_Nat"
begin

text \<open>
  A shallow embedding of \<^verbatim>\<open>Algorithms/Strassen's/src/matrix.cpp\<close>: the class \<^verbatim>\<open>Matrix\<close>, a
  square matrix of \<^verbatim>\<open>int\<close> in a flat row-major vector, with its constructor, element access,
  \<^verbatim>\<open>partition\<close>, \<^verbatim>\<open>combine\<close>, the recursive \<^verbatim>\<open>multiply\<close>, \<^verbatim>\<open>strassen\<close> and the operators
  \<^verbatim>\<open>+\<close>, \<^verbatim>\<open>-\<close> and \<^verbatim>\<open>*\<close>. Each of these functions is a function here, under its own name
  where the library leaves it free; an exception is a value of type \<open>error\<close>. Printing is
  left out.
\<close>

section \<open>Data model\<close>

text \<open>
  The element type of \<^verbatim>\<open>std::vector<int> m_data\<close> is the 32-bit \<^verbatim>\<open>int\<close>; its arithmetic
  is read as two's complement (\<open>+\<close>, \<open>-\<close> and \<open>*\<close> on \<open>32 word\<close> wrap around). Sizes,
  rows, columns and offsets are \<^verbatim>\<open>size_t\<close>: natural numbers below \<open>2 ^ 64\<close>, with the
  wrap-around of every \<^verbatim>\<open>size_t\<close> operation written out by \<open>size_t_wrap\<close>.
\<close>

type_synonym cint = "32 word"

datatype error = InvalidArgument | OutOfRange

record Matrix =
  m_size :: nat
  m_data :: "cint list"

definition size_t_wrap :: "nat \<Rightarrow> nat" where
  "size_t_wrap n = n mod 2 ^ 64"

text \<open>
  A thrown exception is the left summand of the result; \<open>bind_e\<close> sequences two
  computations and stops at the first exception.
\<close>

definition bind_e :: "error + 'a \<Rightarrow> ('a \<Rightarrow> error + 'b) \<Rightarrow> error + 'b" where
  "bind_e m f = (case m of Inl e \<Rightarrow> Inl e | Inr x \<Rightarrow> f x)"

text \<open>
  \<^verbatim>\<open>for (size_t i = 0; i < n; ++i) body\<close> over a state: the body runs for
  \<open>i = 0, ..., n - 1\<close> in order; an exception leaves the loop and keeps the state reached
  so far (what was written before the throw stays written).
\<close>

primrec for_each :: "nat list \<Rightarrow> (nat \<Rightarrow> 's \<Rightarrow> error option \<times> 's) \<Rightarrow> 's \<Rightarrow> error option \<times> 's" where
  "for_each [] body s = (None, s)"
| "for_each (i # is) body s =
     (case body i s of
        (Some e, s') \<Rightarrow> (Some e, s')
      | (None, s') \<Rightarrow> for_each is body s')"

definition for_loop :: "nat \<Rightarrow> (nat \<Rightarrow> 's \<Rightarrow> error option \<times> 's) \<Rightarrow> 's \<Rightarrow> error option \<times> 's" where
  "for_loop n body s = for_each [0..<n] body s"

text \<open>A loop over a local object: the exception discards the local.\<close>

definition finish :: "error option \<times> 's \<Rightarrow> error + 's" where
  "finish r = (case r of (Some e, s) \<Rightarrow> Inl e | (None, s) \<Rightarrow> Inr s)"

section \<open>The power-of-two test of the constructor\<close>

text \<open>
  \<^verbatim>\<open>std::fmod(std::log2(s), 1) != 0\<close> is computed on \<^verbatim>\<open>double\<close>. The operations are
  modelled after IEEE 754 and Annex F of the C standard: the conversion of a \<^verbatim>\<open>size_t\<close>
  rounds to the nearest value with a 53-bit significand, ties to even; \<open>log2\<close> of zero is
  minus infinity; \<open>fmod\<close> of an infinity is a NaN; and \<open>!=\<close> holds whenever an operand is
  a NaN. Finite results of \<open>log2\<close> and \<open>fmod\<close> are taken exactly (the rounding of the
  library's \<open>log2\<close> is not modelled).
\<close>

datatype double = Finite real | PosInf | NegInf | NaN

definition to_double :: "nat \<Rightarrow> double" where
  "to_double n =
     (if n < 2 ^ 53 then Finite (real n)
      else
        let e = floorlog 2 n - 53;
            q = n div 2 ^ e;
            r = n mod 2 ^ e;
            h = 2 ^ (e - 1)
        in Finite (real (if h < r \<or> (r = h \<and> odd q) then (q + 1) * 2 ^ e else q * 2 ^ e)))"

fun log2_d :: "double \<Rightarrow> double" where
  "log2_d (Finite x) = (if x = 0 then NegInf else if x < 0 then NaN else Finite (log 2 x))"
| "log2_d PosInf = PosInf"
| "log2_d NegInf = NaN"
| "log2_d NaN = NaN"

definition trunc :: "real \<Rightarrow> int" where
  "trunc x = (if 0 \<le> x then \<lfloor>x\<rfloor> else \<lceil>x\<rceil>)"

fun fmod_d :: "double \<Rightarrow> double \<Rightarrow> double" where
  "fmod_d NaN y = NaN"
| "fmod_d x NaN = NaN"
| "fmod_d PosInf y = NaN"
| "fmod_d NegInf y = NaN"
| "fmod_d (Finite x) (Finite y) = (if y = 0 then NaN else Finite (x - y * of_int (trunc (x / y))))"
| "fmod_d (Finite x) y = Finite x"

fun neq_d :: "double \<Rightarrow> double \<Rightarrow> bool" where
  "neq_d NaN y = True"
| "neq_d x NaN = True"
| "neq_d x y = (x \<noteq> y)"

definition not_power_of_2 :: "nat \<Rightarrow> bool" where
  "not_power_of_2 s = neq_d (fmod_d (log2_d (to_double s)) (Finite 1)) (Finite 0)"

section \<open>Construction\<close>

text \<open>
  \<^verbatim>\<open>Matrix::randomize\<close> overwrites every element with a draw of the generator; the draws
  are a parameter \<open>rnd\<close> (the \<open>i\<close>-th draw is \<open>rnd i\<close>). The constructor pushes
  \<^verbatim>\<open>s * s\<close> zeros, a product of \<^verbatim>\<open>size_t\<close>; running out of memory is not modelled.
\<close>

definition randomize :: "(nat \<Rightarrow> cint) \<Rightarrow> Matrix \<Rightarrow> Matrix" where
  "randomize rnd M = M\<lparr>m_data := map rnd [0..<length (m_data M)]\<rparr>"

definition Matrix_ctor :: "nat \<Rightarrow> bool \<Rightarrow> (nat \<Rightarrow> cint) \<Rightarrow> error + Matrix" where
  "Matrix_ctor s is_empty rnd =
     (if not_power_of_2 s then Inl InvalidArgument
      else
        let M = \<lparr>m_size = s,
                 m_data = foldl (\<lambda>d i. d @ [0]) [] [0..<size_t_wrap (s * s)]\<rparr>
        in Inr (if \<not> is_empty then randomize rnd M else M))"

text \<open>
  Modelled from the spec: the declaration \<^verbatim>\<open>Matrix(size_t s, bool empty = ...)\<close> is in
  \<^verbatim>\<open>matrix.hpp\<close>; a matrix is "constructed either empty (all elements zero) or
  randomized", and the one-argument calls \<^verbatim>\<open>Matrix result(m_size)\<close> build the empty one.
\<close>

definition Matrix_new :: "nat \<Rightarrow> error + Matrix" where
  "Matrix_new s = Matrix_ctor s True (\<lambda>i. 0)"

section \<open>Storage and indexing\<close>

text \<open>\<^verbatim>\<open>Matrix::at\<close> is \<open>at_elem\<close> (\<open>at\<close> is a constant of the library).\<close>

definition get_index :: "Matrix \<Rightarrow> nat \<Rightarrow> nat \<Rightarrow> error + nat" where
  "get_index M r c =
     (let i = size_t_wrap (r * m_size M + c)
      in if i < length (m_data M) then Inr i else Inl OutOfRange)"

definition at_elem :: "Matrix \<Rightarrow> nat \<Rightarrow> nat \<Rightarrow> error + cint" where
  "at_elem M r c = bind_e (get_index M r c) (\<lambda>i. Inr (m_data M ! i))"

text \<open>
  \<^verbatim>\<open>at_ref\<close> returns a reference to the element: reading through it is \<open>at_ref\<close>,
  assigning through it is \<open>at_ref_assign\<close>.
\<close>

definition at_ref :: "Matrix \<Rightarrow> nat \<Rightarrow> nat \<Rightarrow> error + cint" where
  "at_ref M r c = bind_e (get_index M r c) (\<lambda>i. Inr (m_data M ! i))"

definition at_ref_assign :: "Matrix \<Rightarrow> nat \<Rightarrow> nat \<Rightarrow> cint \<Rightarrow> error + Matrix" where
  "at_ref_assign M r c v =
     bind_e (get_index M r c) (\<lambda>i. Inr (M\<lparr>m_data := (m_data M)[i := v]\<rparr>))"

section \<open>Partition and combine\<close>

text \<open>
  \<^verbatim>\<open>Matrix::partition\<close> is \<open>partition_mx\<close> (\<open>partition\<close> is a constant of the library).
  The local \<^verbatim>\<open>sub_matrix\<close> is the state of the two loops.
\<close>

definition partition_mx :: "Matrix \<Rightarrow> nat \<Rightarrow> nat \<Rightarrow> error + Matrix" where
  "partition_mx M row_start col_start =
     (let s = m_size M div 2 in
      bind_e (Matrix_new s) (\<lambda>sub_matrix.
        finish (for_loop s (\<lambda>i.
          for_loop s (\<lambda>j sub.
            case at_elem M (size_t_wrap (i + row_start)) (size_t_wrap (j + col_start)) of
              Inl e \<Rightarrow> (Some e, sub)
            | Inr v \<Rightarrow>
                (case at_ref_assign sub i j v of
                   Inl e \<Rightarrow> (Some e, sub)
                 | Inr sub' \<Rightarrow> (None, sub')))) sub_matrix)))"

text \<open>
  \<^verbatim>\<open>combine\<close> writes into its receiver and reads its four arguments through references, so
  the objects live in a store, an object at every address, and \<open>combine\<close> takes the
  addresses of the receiver and of the four quadrants. The lambda \<^verbatim>\<open>determine_quad\<close> returns
  its element by value.
\<close>

type_synonym addr = nat

type_synonym store = "addr \<Rightarrow> Matrix"

definition determine_quad ::
  "nat \<Rightarrow> Matrix \<Rightarrow> Matrix \<Rightarrow> Matrix \<Rightarrow> Matrix \<Rightarrow> nat \<Rightarrow> nat \<Rightarrow> error + cint" where
  "determine_quad k R_11 R_12 R_21 R_22 i j =
     (if i < k \<and> j < k then at_ref R_11 i j
      else if i < k \<and> k \<le> j then at_ref R_12 i (j - k)
      else if k \<le> i \<and> j < k then at_ref R_21 (i - k) j
      else at_ref R_22 (i - k) (j - k))"

definition combine :: "addr \<Rightarrow> addr \<Rightarrow> addr \<Rightarrow> addr \<Rightarrow> addr \<Rightarrow> store \<Rightarrow> error option \<times> store" where
  "combine self R_11 R_12 R_21 R_22 st =
     (let k = m_size (st self) div 2 in
      for_loop (m_size (st self)) (\<lambda>i.
        for_loop (m_size (st self)) (\<lambda>j \<sigma>.
          case determine_quad k (\<sigma> R_11) (\<sigma> R_12) (\<sigma> R_21) (\<sigma> R_22) i j of
            Inl e \<Rightarrow> (Some e, \<sigma>)
          | Inr v \<Rightarrow>
              (case at_ref_assign (\<sigma> self) i j v of
                 Inl e \<Rightarrow> (Some e, \<sigma>)
               | Inr M \<Rightarrow> (None, \<sigma>(self := M))))) st)"

text \<open>
  \<^verbatim>\<open>multiply\<close> and \<^verbatim>\<open>strassen\<close> call \<^verbatim>\<open>result.combine(R_11, R_12, R_21, R_22)\<close> on five
  local objects: five distinct addresses of a store of their own.
\<close>

definition locals :: "Matrix \<Rightarrow> Matrix \<Rightarrow> Matrix \<Rightarrow> Matrix \<Rightarrow> Matrix \<Rightarrow> store" where
  "locals result R_11 R_12 R_21 R_22 =
     (\<lambda>a. if a = 0 then result else if a = 1 then R_11 else if a = 2 then R_12
          else if a = 3 then R_21 else R_22)"

definition combine_locals :: "Matrix \<Rightarrow> Matrix \<Rightarrow> Matrix \<Rightarrow> Matrix \<Rightarrow> Matrix \<Rightarrow> error + Matrix" where
  "combine_locals result R_11 R_12 R_21 R_22 =
     (case combine 0 1 2 3 4 (locals result R_11 R_12 R_21 R_22) of
        (Some e, \<sigma>) \<Rightarrow> Inl e
      | (None, \<sigma>) \<Rightarrow> Inr (\<sigma> 0))"

section \<open>Elementwise operations\<close>

text \<open>
  \<^verbatim>\<open>result.m_data[i] = m_data[i] + other.m_data[i]\<close> uses the unchecked \<^verbatim>\<open>operator[]\<close>; the
  three vectors have the same length once the sizes are equal.
\<close>

definition operator_plus :: "Matrix \<Rightarrow> Matrix \<Rightarrow> error + Matrix" where
  "operator_plus A other =
     (if m_size A \<noteq> m_size other then Inl InvalidArgument
      else
        bind_e (Matrix_new (m_size A)) (\<lambda>result.
          finish (for_loop (length (m_data A)) (\<lambda>i res.
            (None, res\<lparr>m_data := (m_data res)[i := m_data A ! i + m_data other ! i]\<rparr>)) result)))"

definition operator_minus :: "Matrix \<Rightarrow> Matrix \<Rightarrow> error + Matrix" where
  "operator_minus A other =
     (if m_size A \<noteq> m_size other then Inl InvalidArgument
      else
        bind_e (Matrix_new (m_size A)) (\<lambda>result.
          finish (for_loop (length (m_data A)) (\<lambda>i res.
            (None, res\<lparr>m_data := (m_data res)[i := m_data A ! i - m_data other ! i]\<rparr>)) result)))"

section \<open>Recursive multiplication\<close>

text \<open>
  The recursion of \<^verbatim>\<open>multiply\<close> descends to the quadrants, which are half the size: the
  facts below give its termination.
\<close>

lemma bind_e_cong [fundef_cong]:
  "m = m' \<Longrightarrow> (\<And>x. m' = Inr x \<Longrightarrow> f x = f' x) \<Longrightarrow> bind_e m f = bind_e m' f'"
  by (cases m') (simp_all add: bind_e_def)

lemma bind_e_Inr [simp]: "bind_e (Inr x) f = f x"
  by (simp add: bind_e_def)

lemma bind_e_Inl [simp]: "bind_e (Inl e) f = Inl e"
  by (simp add: bind_e_def)

lemma bind_e_eq_Inr: "bind_e m f = Inr y \<longleftrightarrow> (\<exists>x. m = Inr x \<and> f x = Inr y)"
  by (cases m) simp_all

lemma not_power_of_2_zero: "not_power_of_2 0"
  by (simp add: not_power_of_2_def to_double_def)

lemma Matrix_new_size:
  assumes "Matrix_new s = Inr M"
  shows "m_size M = s" and "s \<noteq> 0"
proof -
  from assms have np: "\<not> not_power_of_2 s"
    by (auto simp: Matrix_new_def Matrix_ctor_def split: if_splits)
  from assms np show "m_size M = s"
    by (auto simp: Matrix_new_def Matrix_ctor_def Let_def)
  show "s \<noteq> 0"
  proof
    assume "s = 0"
    with np not_power_of_2_zero show False by simp
  qed
qed

lemma for_each_invariant:
  assumes "for_each xs body s = (r, s')" and "P s"
    and "\<And>i t r' t'. P t \<Longrightarrow> body i t = (r', t') \<Longrightarrow> P t'"
  shows "P s'"
  using assms(1,2)
proof (induction xs arbitrary: s)
  case Nil
  then show ?case by simp
next
  case (Cons i xs)
  obtain r1 s1 where b: "body i s = (r1, s1)" by (cases "body i s")
  have p1: "P s1" using assms(3)[OF Cons.prems(2) b] .
  show ?case
  proof (cases r1)
    case None
    with Cons.prems(1) b have "for_each xs body s1 = (r, s')" by simp
    from Cons.IH[OF this p1] show ?thesis .
  next
    case (Some e)
    with Cons.prems(1) b have "s' = s1" by simp
    with p1 show ?thesis by simp
  qed
qed

lemma for_loop_invariant:
  assumes "for_loop n body s = (r, s')" and "P s"
    and "\<And>i t r' t'. P t \<Longrightarrow> body i t = (r', t') \<Longrightarrow> P t'"
  shows "P s'"
  using assms(1)[unfolded for_loop_def] assms(2,3) by (rule for_each_invariant)

lemma at_ref_assign_size: "at_ref_assign M r c v = Inr M' \<Longrightarrow> m_size M' = m_size M"
  by (auto simp: at_ref_assign_def bind_e_eq_Inr)

lemma finish_eq_Inr: "finish r = Inr s \<longleftrightarrow> r = (None, s)"
  by (cases r) (auto simp: finish_def split: option.splits)

lemma partition_mx_size:
  assumes "partition_mx M r c = Inr X"
  shows "m_size X = m_size M div 2" and "m_size M div 2 \<noteq> 0"
proof -
  let ?s = "m_size M div 2"
  from assms obtain sub where new: "Matrix_new ?s = Inr sub"
    and loop: "for_loop ?s (\<lambda>i.
          for_loop ?s (\<lambda>j sub.
            case at_elem M (size_t_wrap (i + r)) (size_t_wrap (j + c)) of
              Inl e \<Rightarrow> (Some e, sub)
            | Inr v \<Rightarrow>
                (case at_ref_assign sub i j v of
                   Inl e \<Rightarrow> (Some e, sub)
                 | Inr sub' \<Rightarrow> (None, sub')))) sub = (None, X)"
    by (auto simp: partition_mx_def Let_def bind_e_eq_Inr finish_eq_Inr)
  have "m_size X = ?s"
  proof (rule for_loop_invariant[OF loop, where P = "\<lambda>t. m_size t = ?s"])
    show "m_size sub = ?s" using Matrix_new_size(1)[OF new] .
  next
    fix i t r' t'
    assume t: "m_size t = ?s" and
      inner: "for_loop ?s (\<lambda>j sub.
            case at_elem M (size_t_wrap (i + r)) (size_t_wrap (j + c)) of
              Inl e \<Rightarrow> (Some e, sub)
            | Inr v \<Rightarrow>
                (case at_ref_assign sub i j v of
                   Inl e \<Rightarrow> (Some e, sub)
                 | Inr sub' \<Rightarrow> (None, sub'))) t = (r', t')"
    show "m_size t' = ?s"
      by (rule for_loop_invariant[OF inner, where P = "\<lambda>t. m_size t = ?s"])
        (auto simp: t split: sum.splits dest: at_ref_assign_size)
  qed
  then show "m_size X = m_size M div 2" .
  show "m_size M div 2 \<noteq> 0" using Matrix_new_size(2)[OF new] .
qed

lemma partition_mx_smaller: "partition_mx M r c = Inr X \<Longrightarrow> m_size X < m_size M"
  using partition_mx_size[of M r c X] by auto

text \<open>
  Operands are evaluated from left to right. The constructor of \<^verbatim>\<open>result\<close> runs first,
  as in the source.
\<close>

function multiply :: "Matrix \<Rightarrow> Matrix \<Rightarrow> error + Matrix" where
  "multiply A other =
     bind_e (Matrix_new (m_size A)) (\<lambda>result.
       if m_size A = 1 then
         bind_e (at_elem A 0 0) (\<lambda>a.
         bind_e (at_elem other 0 0) (\<lambda>b.
         at_ref_assign result 0 0 (a * b)))
       else
         let k = m_size A div 2 in
         bind_e (partition_mx A 0 0) (\<lambda>A1.
         bind_e (partition_mx other 0 0) (\<lambda>B1.
         bind_e (multiply A1 B1) (\<lambda>P1.
         bind_e (partition_mx A 0 k) (\<lambda>A2.
         bind_e (partition_mx other k 0) (\<lambda>B2.
         bind_e (multiply A2 B2) (\<lambda>P2.
         bind_e (operator_plus P1 P2) (\<lambda>R_11.
         bind_e (partition_mx A 0 0) (\<lambda>A3.
         bind_e (partition_mx other 0 k) (\<lambda>B3.
         bind_e (multiply A3 B3) (\<lambda>P3.
         bind_e (partition_mx A 0 k) (\<lambda>A4.
         bind_e (partition_mx other k k) (\<lambda>B4.
         bind_e (multiply A4 B4) (\<lambda>P4.
         bind_e (operator_plus P3 P4) (\<lambda>R_12.
         bind_e (partition_mx A k 0) (\<lambda>A5.
         bind_e (partition_mx other 0 0) (\<lambda>B5.
         bind_e (multiply A5 B5) (\<lambda>P5.
         bind_e (partition_mx A k k) (\<lambda>A6.
         bind_e (partition_mx other k 0) (\<lambda>B6.
         bind_e (multiply A6 B6) (\<lambda>P6.
         bind_e (operator_plus P5 P6) (\<lambda>R_21.
         bind_e (partition_mx A k 0) (\<lambda>A7.
         bind_e (partition_mx other 0 k) (\<lambda>B7.
         bind_e (multiply A7 B7) (\<lambda>P7.
         bind_e (partition_mx A k k) (\<lambda>A8.
         bind_e (partition_mx other k k) (\<lambda>B8.
         bind_e (multiply A8 B8) (\<lambda>P8.
         bind_e (operator_plus P7 P8) (\<lambda>R_22.
         combine_locals result R_11 R_12 R_21 R_22)))))))))))))))))))))))))))))"
  by pat_completeness auto
termination
  by (relation "measure (\<lambda>(A, other). m_size A)") (auto dest: partition_mx_smaller)


section \<open>Strassen multiplication\<close>

text \<open>
  The seven products, one definition for each of the source's lines
  \<^verbatim>\<open>Matrix P1 = ...\<close> to \<^verbatim>\<open>Matrix P7 = ...\<close>; every product is a call of \<^verbatim>\<open>multiply\<close>.
\<close>

definition strassen_P1 :: "Matrix \<Rightarrow> Matrix \<Rightarrow> nat \<Rightarrow> error + Matrix" where
  "strassen_P1 A other k =
     bind_e (partition_mx A 0 0) (\<lambda>X.
     bind_e (partition_mx other 0 k) (\<lambda>Y1.
     bind_e (partition_mx other k k) (\<lambda>Y2.
     bind_e (operator_minus Y1 Y2) (\<lambda>Y.
     multiply X Y))))"

definition strassen_P2 :: "Matrix \<Rightarrow> Matrix \<Rightarrow> nat \<Rightarrow> error + Matrix" where
  "strassen_P2 A other k =
     bind_e (partition_mx A 0 0) (\<lambda>X1.
     bind_e (partition_mx A 0 k) (\<lambda>X2.
     bind_e (operator_plus X1 X2) (\<lambda>X.
     bind_e (partition_mx other k k) (\<lambda>Y.
     multiply X Y))))"

definition strassen_P3 :: "Matrix \<Rightarrow> Matrix \<Rightarrow> nat \<Rightarrow> error + Matrix" where
  "strassen_P3 A other k =
     bind_e (partition_mx A k 0) (\<lambda>X1.
     bind_e (partition_mx A k k) (\<lambda>X2.
     bind_e (operator_plus X1 X2) (\<lambda>X.
     bind_e (partition_mx other 0 0) (\<lambda>Y.
     multiply X Y))))"

definition strassen_P4 :: "Matrix \<Rightarrow> Matrix \<Rightarrow> nat \<Rightarrow> error + Matrix" where
  "strassen_P4 A other k =
     bind_e (partition_mx A k k) (\<lambda>X.
     bind_e (partition_mx other k 0) (\<lambda>Y1.
     bind_e (partition_mx other 0 0) (\<lambda>Y2.
     bind_e (operator_minus Y1 Y2) (\<lambda>Y.
     multiply X Y))))"

definition strassen_P5 :: "Matrix \<Rightarrow> Matrix \<Rightarrow> nat \<Rightarrow> error + Matrix" where
  "strassen_P5 A other k =
     bind_e (partition_mx A 0 0) (\<lambda>X1.
     bind_e (partition_mx A k k) (\<lambda>X2.
     bind_e (operator_plus X1 X2) (\<lambda>X.
     bind_e (partition_mx other 0 0) (\<lambda>Y1.
     bind_e (partition_mx other k k) (\<lambda>Y2.
     bind_e (operator_plus Y1 Y2) (\<lambda>Y.
     multiply X Y))))))"

definition strassen_P6 :: "Matrix \<Rightarrow> Matrix \<Rightarrow> nat \<Rightarrow> error + Matrix" where
  "strassen_P6 A other k =
     bind_e (partition_mx A 0 k) (\<lambda>X1.
     bind_e (partition_mx A k k) (\<lambda>X2.
     bind_e (operator_minus X1 X2) (\<lambda>X.
     bind_e (partition_mx other k 0) (\<lambda>Y1.
     bind_e (partition_mx other k k) (\<lambda>Y2.
     bind_e (operator_plus Y1 Y2) (\<lambda>Y.
     multiply X Y))))))"

definition strassen_P7 :: "Matrix \<Rightarrow> Matrix \<Rightarrow> nat \<Rightarrow> error + Matrix" where
  "strassen_P7 A other k =
     bind_e (partition_mx A 0 0) (\<lambda>X1.
     bind_e (partition_mx A k 0) (\<lambda>X2.
     bind_e (operator_minus X1 X2) (\<lambda>X.
     bind_e (partition_mx other 0 0) (\<lambda>Y1.
     bind_e (partition_mx other 0 k) (\<lambda>Y2.
     bind_e (operator_plus Y1 Y2) (\<lambda>Y.
     multiply X Y))))))"

definition strassen :: "Matrix \<Rightarrow> Matrix \<Rightarrow> error + Matrix" where
  "strassen A other =
     (if m_size A = 1 then multiply A other
      else
        bind_e (Matrix_new (m_size A)) (\<lambda>result.
        let k = m_size A div 2 in
        bind_e (strassen_P1 A other k) (\<lambda>P1.
        bind_e (strassen_P2 A other k) (\<lambda>P2.
        bind_e (strassen_P3 A other k) (\<lambda>P3.
        bind_e (strassen_P4 A other k) (\<lambda>P4.
        bind_e (strassen_P5 A other k) (\<lambda>P5.
        bind_e (strassen_P6 A other k) (\<lambda>P6.
        bind_e (strassen_P7 A other k) (\<lambda>P7.
        bind_e (operator_plus P5 P4) (\<lambda>S1.
        bind_e (operator_minus S1 P2) (\<lambda>S2.
        bind_e (operator_plus S2 P6) (\<lambda>R_11.
        bind_e (operator_plus P1 P2) (\<lambda>R_12.
        bind_e (operator_plus P3 P4) (\<lambda>R_21.
        bind_e (operator_plus P5 P1) (\<lambda>S3.
        bind_e (operator_minus S3 P3) (\<lambda>S4.
        bind_e (operator_minus S4 P7) (\<lambda>R_22.
        combine_locals result R_11 R_12 R_21 R_22)))))))))))))))))"

definition operator_times :: "Matrix \<Rightarrow> Matrix \<Rightarrow> error + Matrix" where
  "operator_times A other =
     (if m_size A \<noteq> m_size other then Inl InvalidArgument else strassen A other)"

section \<open>The operations on the objects of a store\<close>

text \<open>
  The functions above take and return matrices as values. To say what a call does to the
  objects it is given, the member functions are embedded once more over a store of objects, as
  \<^verbatim>\<open>combine\<close> is: the receiver and the argument of a call are addresses, every local object
  and every temporary of the source is an object of the store at an address of its own, and
  every write of the source is an update of the store at the address written. The addresses
  below \<open>next_free\<close> are in use; a constructor takes the address \<open>next_free\<close>. Destructors are
  not modelled (an object stays in the store), and a returned local is the object the caller
  receives (the copy of \<^verbatim>\<open>return result\<close> is elided).
\<close>

record heap =
  objs :: store
  next_free :: addr

text \<open>
  An action runs on a store and returns a value, throws, or runs out of fuel (see
  \<open>multiply_st\<close>); in each case it leaves a store. \<open>bind_h\<close> sequences two actions, and
  \<open>call2 f ma mb\<close> is the call \<^verbatim>\<open>x.f(y)\<close> whose receiver and argument are the values of the
  expressions \<open>ma\<close> and \<open>mb\<close>, evaluated from left to right as above.
\<close>

datatype 'a outcome = Returns 'a | Throws error | OutOfFuel

type_synonym 'a action = "heap \<Rightarrow> 'a outcome \<times> heap"

definition ret :: "'a \<Rightarrow> 'a action" where
  "ret x h = (Returns x, h)"

definition throw :: "error \<Rightarrow> 'a action" where
  "throw e h = (Throws e, h)"

definition bind_h :: "'a action \<Rightarrow> ('a \<Rightarrow> 'b action) \<Rightarrow> 'b action" where
  "bind_h m f h =
     (case m h of
        (Returns x, h') \<Rightarrow> f x h'
      | (Throws e, h') \<Rightarrow> (Throws e, h')
      | (OutOfFuel, h') \<Rightarrow> (OutOfFuel, h'))"

definition call2 :: "(addr \<Rightarrow> addr \<Rightarrow> 'a action) \<Rightarrow> addr action \<Rightarrow> addr action \<Rightarrow> 'a action" where
  "call2 f ma mb = bind_h ma (\<lambda>a. bind_h mb (\<lambda>b. f a b))"

text \<open>
  \<^verbatim>\<open>Matrix result(s)\<close>: the constructor makes the object at the next free address, or throws.
  Reading the members \<^verbatim>\<open>m_size\<close> and \<^verbatim>\<open>m_data.size()\<close> of an object, \<^verbatim>\<open>at\<close>, and the
  assignment through \<^verbatim>\<open>at_ref\<close>, the one of these that writes.
\<close>

definition new_object :: "heap \<Rightarrow> Matrix \<Rightarrow> heap" where
  "new_object h M = h\<lparr>objs := (objs h)(next_free h := M), next_free := Suc (next_free h)\<rparr>"

definition Matrix_st :: "nat \<Rightarrow> addr action" where
  "Matrix_st s h =
     (case Matrix_new s of
        Inl e \<Rightarrow> (Throws e, h)
      | Inr M \<Rightarrow> (Returns (next_free h), new_object h M))"

definition m_size_st :: "addr \<Rightarrow> nat action" where
  "m_size_st a h = (Returns (m_size (objs h a)), h)"

definition m_data_size_st :: "addr \<Rightarrow> nat action" where
  "m_data_size_st a h = (Returns (length (m_data (objs h a))), h)"

definition at_st :: "addr \<Rightarrow> nat \<Rightarrow> nat \<Rightarrow> cint action" where
  "at_st a r c h =
     (case at_elem (objs h a) r c of Inl e \<Rightarrow> (Throws e, h) | Inr v \<Rightarrow> (Returns v, h))"

definition at_ref_assign_st :: "addr \<Rightarrow> nat \<Rightarrow> nat \<Rightarrow> cint \<Rightarrow> unit action" where
  "at_ref_assign_st a r c v h =
     (case at_ref_assign (objs h a) r c v of
        Inl e \<Rightarrow> (Throws e, h)
      | Inr M \<Rightarrow> (Returns (), h\<lparr>objs := (objs h)(a := M)\<rparr>))"

definition loop_st :: "nat \<Rightarrow> (nat \<Rightarrow> heap \<Rightarrow> error option \<times> heap) \<Rightarrow> unit action" where
  "loop_st n body h =
     (case for_loop n body h of
        (Some e, h') \<Rightarrow> (Throws e, h')
      | (None, h') \<Rightarrow> (Returns (), h'))"

text \<open>
  \<^verbatim>\<open>partition\<close>, \<^verbatim>\<open>operator+\<close> and \<^verbatim>\<open>operator-\<close>: the loops read the receiver (and the
  argument) in the store and write the local \<^verbatim>\<open>sub_matrix\<close> or \<^verbatim>\<open>result\<close>. \<^verbatim>\<open>combine\<close> is
  the function \<open>combine\<close> above, on the objects of the store.
\<close>

definition partition_st :: "addr \<Rightarrow> nat \<Rightarrow> nat \<Rightarrow> addr action" where
  "partition_st self row_start col_start =
     bind_h (m_size_st self) (\<lambda>m.
     let s = m div 2 in
     bind_h (Matrix_st s) (\<lambda>sub_matrix.
     bind_h (loop_st s (\<lambda>i.
       for_loop s (\<lambda>j h.
         case at_elem (objs h self) (size_t_wrap (i + row_start)) (size_t_wrap (j + col_start)) of
           Inl e \<Rightarrow> (Some e, h)
         | Inr v \<Rightarrow>
             (case at_ref_assign (objs h sub_matrix) i j v of
                Inl e \<Rightarrow> (Some e, h)
              | Inr M \<Rightarrow> (None, h\<lparr>objs := (objs h)(sub_matrix := M)\<rparr>)))))
     (\<lambda>u. ret sub_matrix)))"

definition combine_st :: "addr \<Rightarrow> addr \<Rightarrow> addr \<Rightarrow> addr \<Rightarrow> addr \<Rightarrow> unit action" where
  "combine_st self R_11 R_12 R_21 R_22 h =
     (case combine self R_11 R_12 R_21 R_22 (objs h) of
        (Some e, st) \<Rightarrow> (Throws e, h\<lparr>objs := st\<rparr>)
      | (None, st) \<Rightarrow> (Returns (), h\<lparr>objs := st\<rparr>))"

definition operator_plus_st :: "addr \<Rightarrow> addr \<Rightarrow> addr action" where
  "operator_plus_st self other =
     bind_h (m_size_st self) (\<lambda>s.
     bind_h (m_size_st other) (\<lambda>s'.
     if s \<noteq> s' then throw InvalidArgument
     else
       bind_h (m_size_st self) (\<lambda>s1.
       bind_h (Matrix_st s1) (\<lambda>result.
       bind_h (m_data_size_st self) (\<lambda>n.
       bind_h (loop_st n (\<lambda>i h.
         (None, h\<lparr>objs := (objs h)(result := (objs h result)
            \<lparr>m_data := (m_data (objs h result))
               [i := m_data (objs h self) ! i + m_data (objs h other) ! i]\<rparr>)\<rparr>)))
       (\<lambda>u. ret result))))))"

definition operator_minus_st :: "addr \<Rightarrow> addr \<Rightarrow> addr action" where
  "operator_minus_st self other =
     bind_h (m_size_st self) (\<lambda>s.
     bind_h (m_size_st other) (\<lambda>s'.
     if s \<noteq> s' then throw InvalidArgument
     else
       bind_h (m_size_st self) (\<lambda>s1.
       bind_h (Matrix_st s1) (\<lambda>result.
       bind_h (m_data_size_st self) (\<lambda>n.
       bind_h (loop_st n (\<lambda>i h.
         (None, h\<lparr>objs := (objs h)(result := (objs h result)
            \<lparr>m_data := (m_data (objs h result))
               [i := m_data (objs h self) ! i - m_data (objs h other) ! i]\<rparr>)\<rparr>)))
       (\<lambda>u. ret result))))))"

text \<open>
  \<^verbatim>\<open>multiply\<close> calls itself on objects it has made, in a store that the calls before have
  changed; its recursion is over a fuel, the number of nested calls allowed: without fuel the
  call ends with \<open>OutOfFuel\<close>. A receiver of size \<open>s\<close> needs no more than \<open>s\<close>.
  \<^verbatim>\<open>strassen\<close> is not recursive: its fuel is that of its calls of \<^verbatim>\<open>multiply\<close>.
\<close>

primrec multiply_st :: "nat \<Rightarrow> addr \<Rightarrow> addr \<Rightarrow> addr action" where
  "multiply_st 0 self other = (\<lambda>h. (OutOfFuel, h))"
| "multiply_st (Suc n) self other =
     bind_h (m_size_st self) (\<lambda>s.
     bind_h (Matrix_st s) (\<lambda>result.
     bind_h (m_size_st self) (\<lambda>s1.
       if s1 = 1 then
         bind_h (at_st self 0 0) (\<lambda>a.
         bind_h (at_st other 0 0) (\<lambda>b.
         bind_h (at_ref_assign_st result 0 0 (a * b)) (\<lambda>u. ret result)))
       else
         bind_h (m_size_st self) (\<lambda>s2.
         let k = s2 div 2 in
         bind_h (call2 operator_plus_st
           (call2 (multiply_st n) (partition_st self 0 0) (partition_st other 0 0))
           (call2 (multiply_st n) (partition_st self 0 k) (partition_st other k 0))) (\<lambda>R_11.
         bind_h (call2 operator_plus_st
           (call2 (multiply_st n) (partition_st self 0 0) (partition_st other 0 k))
           (call2 (multiply_st n) (partition_st self 0 k) (partition_st other k k))) (\<lambda>R_12.
         bind_h (call2 operator_plus_st
           (call2 (multiply_st n) (partition_st self k 0) (partition_st other 0 0))
           (call2 (multiply_st n) (partition_st self k k) (partition_st other k 0))) (\<lambda>R_21.
         bind_h (call2 operator_plus_st
           (call2 (multiply_st n) (partition_st self k 0) (partition_st other 0 k))
           (call2 (multiply_st n) (partition_st self k k) (partition_st other k k))) (\<lambda>R_22.
         bind_h (combine_st result R_11 R_12 R_21 R_22) (\<lambda>u. ret result)))))))))"

definition strassen_st :: "nat \<Rightarrow> addr \<Rightarrow> addr \<Rightarrow> addr action" where
  "strassen_st n self other =
     bind_h (m_size_st self) (\<lambda>s.
     if s = 1 then multiply_st n self other
     else
       bind_h (m_size_st self) (\<lambda>s1.
       bind_h (Matrix_st s1) (\<lambda>result.
       bind_h (m_size_st self) (\<lambda>s2.
       let k = s2 div 2 in
       bind_h (call2 (multiply_st n) (partition_st self 0 0)
         (call2 operator_minus_st (partition_st other 0 k) (partition_st other k k))) (\<lambda>P1.
       bind_h (call2 (multiply_st n)
         (call2 operator_plus_st (partition_st self 0 0) (partition_st self 0 k))
         (partition_st other k k)) (\<lambda>P2.
       bind_h (call2 (multiply_st n)
         (call2 operator_plus_st (partition_st self k 0) (partition_st self k k))
         (partition_st other 0 0)) (\<lambda>P3.
       bind_h (call2 (multiply_st n) (partition_st self k k)
         (call2 operator_minus_st (partition_st other k 0) (partition_st other 0 0))) (\<lambda>P4.
       bind_h (call2 (multiply_st n)
         (call2 operator_plus_st (partition_st self 0 0) (partition_st self k k))
         (call2 operator_plus_st (partition_st other 0 0) (partition_st other k k))) (\<lambda>P5.
       bind_h (call2 (multiply_st n)
         (call2 operator_minus_st (partition_st self 0 k) (partition_st self k k))
         (call2 operator_plus_st (partition_st other k 0) (partition_st other k k))) (\<lambda>P6.
       bind_h (call2 (multiply_st n)
         (call2 operator_minus_st (partition_st self 0 0) (partition_st self k 0))
         (call2 operator_plus_st (partition_st other 0 0) (partition_st other 0 k))) (\<lambda>P7.
       bind_h (call2 operator_plus_st
         (call2 operator_minus_st (call2 operator_plus_st (ret P5) (ret P4)) (ret P2))
         (ret P6)) (\<lambda>R_11.
       bind_h (call2 operator_plus_st (ret P1) (ret P2)) (\<lambda>R_12.
       bind_h (call2 operator_plus_st (ret P3) (ret P4)) (\<lambda>R_21.
       bind_h (call2 operator_minus_st
         (call2 operator_minus_st (call2 operator_plus_st (ret P5) (ret P1)) (ret P3))
         (ret P7)) (\<lambda>R_22.
       bind_h (combine_st result R_11 R_12 R_21 R_22) (\<lambda>u. ret result))))))))))))))))"

section \<open>Well-formed matrices and the notions of the statements\<close>

text \<open>
  A matrix object is well-formed when its size is a power of two below \<open>2 ^ 32\<close> and its
  data holds \<open>size * size\<close> elements: what the constructor establishes, for the sizes whose
  square is a \<^verbatim>\<open>size_t\<close>, and what every operation preserves. \<open>el M i j\<close> is the element of
  row \<open>i\<close> and column \<open>j\<close>, and \<open>mk s f\<close> the matrix of size \<open>s\<close> whose elements are \<open>f i j\<close>.
\<close>

definition el :: "Matrix \<Rightarrow> nat \<Rightarrow> nat \<Rightarrow> cint" where
  "el M i j = m_data M ! (i * m_size M + j)"

definition mk :: "nat \<Rightarrow> (nat \<Rightarrow> nat \<Rightarrow> cint) \<Rightarrow> Matrix" where
  "mk s f = \<lparr>m_size = s, m_data = map (\<lambda>p. f (p div s) (p mod s)) [0..<s * s]\<rparr>"

fun is_power_of_2 :: "nat \<Rightarrow> bool" where
  "is_power_of_2 n = (if n \<le> 1 then n = 1 else even n \<and> is_power_of_2 (n div 2))"

definition valid :: "Matrix \<Rightarrow> bool" where
  "valid M \<longleftrightarrow>
     is_power_of_2 (m_size M) \<and> m_size M < 2 ^ 32 \<and> length (m_data M) = m_size M * m_size M"

declare is_power_of_2.simps [simp del]

declare multiply.simps [simp del]

text \<open>
  The state of the two nested loops that fill a matrix in row-major order, after \<open>t\<close> cells:
  the first \<open>t\<close> cells hold the new elements, the others what they held before.
\<close>

definition filled :: "nat \<Rightarrow> (nat \<Rightarrow> nat \<Rightarrow> cint) \<Rightarrow> cint list \<Rightarrow> nat \<Rightarrow> Matrix" where
  "filled n g old t =
     \<lparr>m_size = n,
      m_data = map (\<lambda>p. if p < t then g (p div n) (p mod n) else old ! p) [0..<n * n]\<rparr>"

text \<open>
  The matrix that \<^verbatim>\<open>combine\<close> assembles from four quadrants of size \<open>k\<close>, and the sum of
  products of row \<open>i\<close> and column \<open>j\<close>.
\<close>

definition assemble ::
  "nat \<Rightarrow> (nat \<Rightarrow> nat \<Rightarrow> cint) \<Rightarrow> (nat \<Rightarrow> nat \<Rightarrow> cint) \<Rightarrow> (nat \<Rightarrow> nat \<Rightarrow> cint) \<Rightarrow> (nat \<Rightarrow> nat \<Rightarrow> cint)
     \<Rightarrow> nat \<Rightarrow> nat \<Rightarrow> cint" where
  "assemble k f11 f12 f21 f22 i j =
     (if i < k \<and> j < k then f11 i j
      else if i < k then f12 i (j - k)
      else if j < k then f21 (i - k) j
      else f22 (i - k) (j - k))"

definition mprod :: "nat \<Rightarrow> (nat \<Rightarrow> nat \<Rightarrow> cint) \<Rightarrow> (nat \<Rightarrow> nat \<Rightarrow> cint) \<Rightarrow> nat \<Rightarrow> nat \<Rightarrow> cint" where
  "mprod n f g i j = (\<Sum>l<n. f i l * g l j)"

text \<open>
  The reference the products are compared with, after the specification's words: element
  \<open>(i, j)\<close> of the product is the sum over \<open>l\<close> of \<open>A(i, l) * B(l, j)\<close>, computed by three
  nested loops over the row-major data.
\<close>

definition reference_product :: "Matrix \<Rightarrow> Matrix \<Rightarrow> Matrix" where
  "reference_product A B =
     (let n = m_size A in
      \<lparr>m_size = n,
       m_data = concat (map (\<lambda>i. map (\<lambda>j.
          sum_list (map (\<lambda>l. m_data A ! (i * n + l) * m_data B ! (l * n + j)) [0..<n]))
            [0..<n]) [0..<n])\<rparr>)"

text \<open>
  Element \<open>(i, j)\<close> of the product over the integers, the elements read as signed.
\<close>

definition integer_product :: "Matrix \<Rightarrow> Matrix \<Rightarrow> nat \<Rightarrow> nat \<Rightarrow> int" where
  "integer_product A B i j = (\<Sum>l<m_size A. sint (el A i l) * sint (el B l j))"

text \<open>
  The statement \<^verbatim>\<open>Matrix dst = e;\<close>: the value of the expression \<open>e\<close> initialises the new
  object \<open>dst\<close>; when \<open>e\<close> throws, no object is made and the store is as it was.
\<close>

definition assign_new :: "addr \<Rightarrow> error + Matrix \<Rightarrow> store \<Rightarrow> error option \<times> store" where
  "assign_new dst e st = (case e of Inl err \<Rightarrow> (Some err, st) | Inr R \<Rightarrow> (None, st(dst := R)))"

text \<open>
  The number of \<^verbatim>\<open>int\<close> multiplications (the product in the base case of \<^verbatim>\<open>multiply\<close>)
  that a call on operands of size \<open>s\<close> executes, by the calls the source makes: \<^verbatim>\<open>multiply\<close>
  calls itself eight times on the quadrants; \<^verbatim>\<open>strassen\<close> calls \<^verbatim>\<open>multiply\<close> once at size 1
  and seven times on the quadrants otherwise.
\<close>

fun multiply_mults :: "nat \<Rightarrow> nat" where
  "multiply_mults s = (if s \<le> 1 then s else 8 * multiply_mults (s div 2))"

definition strassen_mults :: "nat \<Rightarrow> nat" where
  "strassen_mults s = (if s \<le> 1 then multiply_mults s else 7 * multiply_mults (s div 2))"

text \<open>
  The same count for the algorithm of the specification, in which each of the seven
  products is a recursive call of \<^verbatim>\<open>strassen\<close>.
\<close>

fun strassen_spec_mults :: "nat \<Rightarrow> nat" where
  "strassen_spec_mults s = (if s \<le> 1 then s else 7 * strassen_spec_mults (s div 2))"

declare multiply_mults.simps [simp del] strassen_spec_mults.simps [simp del]

text \<open>
  The outcome \<open>r\<close> of an action run on the store \<open>h\<close> is a new result \<open>R\<close> when the action
  returns the address of an object that was made during the run and that holds \<open>R\<close>.
  \<open>heap_of Ms\<close> is the store whose objects in use are those of the list \<open>Ms\<close>, at the
  addresses \<open>0, 1, ...\<close>.
\<close>

definition new_result :: "heap \<Rightarrow> addr outcome \<times> heap \<Rightarrow> Matrix \<Rightarrow> bool" where
  "new_result h r R =
     (case r of
        (Returns c, h') \<Rightarrow> next_free h \<le> c \<and> c < next_free h' \<and> objs h' c = R
      | (Throws e, h') \<Rightarrow> False
      | (OutOfFuel, h') \<Rightarrow> False)"

definition heap_of :: "Matrix list \<Rightarrow> heap" where
  "heap_of Ms =
     \<lparr>objs = (\<lambda>a. if a < length Ms then Ms ! a else \<lparr>m_size = 0, m_data = []\<rparr>),
      next_free = length Ms\<rparr>"

text \<open>
  Notions of the proofs about the store. An action preserves the objects below \<open>n\<close> when,
  run on a store with \<open>n\<close> or more addresses in use, it takes no address back and leaves
  every object below \<open>n\<close> as it was, whatever its outcome; a step of a loop writes only
  \<open>t\<close> when it leaves every other object and \<open>next_free\<close> as they were. A store \<open>h'\<close>
  extends \<open>h\<close> when the objects in use in \<open>h\<close> are in use and unchanged in \<open>h'\<close>. In a store
  where each address of \<open>\<Gamma>\<close> is in use and holds the matrix \<open>\<Gamma>\<close> gives it, an action yields
  \<open>R\<close> when it returns the address of an object holding \<open>R\<close> in an extension of the store;
  it makes \<open>R\<close> when that object is new; and it completes with \<open>R\<close> over \<open>n\<close> when it
  returns an object, not below \<open>n\<close>, holding \<open>R\<close> and preserves the objects below \<open>n\<close>.
\<close>

definition preserves :: "nat \<Rightarrow> 'a action \<Rightarrow> bool" where
  "preserves n m \<longleftrightarrow>
     (\<forall>h. n \<le> next_free h \<longrightarrow>
        next_free h \<le> next_free (snd (m h)) \<and> (\<forall>x<n. objs (snd (m h)) x = objs h x))"

definition writes_only :: "addr \<Rightarrow> (heap \<Rightarrow> error option \<times> heap) \<Rightarrow> bool" where
  "writes_only t step \<longleftrightarrow>
     (\<forall>h. next_free (snd (step h)) = next_free h
        \<and> (\<forall>x. x \<noteq> t \<longrightarrow> objs (snd (step h)) x = objs h x))"

definition ext :: "heap \<Rightarrow> heap \<Rightarrow> bool" where
  "ext h h' \<longleftrightarrow> next_free h \<le> next_free h' \<and> (\<forall>x<next_free h. objs h' x = objs h x)"

definition holds_all :: "heap \<Rightarrow> (addr \<times> Matrix) set \<Rightarrow> bool" where
  "holds_all h \<Gamma> \<longleftrightarrow> (\<forall>(a, M)\<in>\<Gamma>. a < next_free h \<and> objs h a = M)"

definition yields :: "(addr \<times> Matrix) set \<Rightarrow> addr action \<Rightarrow> Matrix \<Rightarrow> bool" where
  "yields \<Gamma> m R \<longleftrightarrow>
     (\<forall>h. holds_all h \<Gamma> \<longrightarrow>
        (\<exists>c h'. m h = (Returns c, h') \<and> ext h h' \<and> c < next_free h' \<and> objs h' c = R))"

definition makes :: "(addr \<times> Matrix) set \<Rightarrow> addr action \<Rightarrow> Matrix \<Rightarrow> bool" where
  "makes \<Gamma> m R \<longleftrightarrow>
     (\<forall>h. holds_all h \<Gamma> \<longrightarrow>
        (\<exists>c h'. m h = (Returns c, h') \<and> ext h h' \<and> next_free h \<le> c \<and> c < next_free h'
           \<and> objs h' c = R))"

definition completes :: "nat \<Rightarrow> (addr \<times> Matrix) set \<Rightarrow> addr action \<Rightarrow> Matrix \<Rightarrow> bool" where
  "completes n \<Gamma> m R \<longleftrightarrow>
     (\<forall>h. n \<le> next_free h \<and> holds_all h \<Gamma> \<longrightarrow>
        (\<exists>c h'. m h = (Returns c, h') \<and> next_free h \<le> next_free h'
           \<and> (\<forall>x<n. objs h' x = objs h x) \<and> n \<le> c \<and> c < next_free h' \<and> objs h' c = R))"

section \<open>The constructor, indexing and the loops\<close>

lemma is_power_of_2_iff: "is_power_of_2 n \<longleftrightarrow> (\<exists>k. n = 2 ^ k)"
proof (induction n rule: is_power_of_2.induct)
  case (1 n)
  show ?case
  proof (cases "n \<le> 1")
    case True
    have "n = 1 \<longleftrightarrow> (\<exists>k. n = 2 ^ k)"
    proof
      assume "n = 1"
      then have "n = 2 ^ 0" by simp
      then show "\<exists>k. n = 2 ^ k" ..
    next
      assume "\<exists>k. n = 2 ^ k"
      then obtain k where k: "n = 2 ^ k" ..
      then have "1 \<le> n" by simp
      with True show "n = 1" by simp
    qed
    with True show ?thesis by (subst is_power_of_2.simps) simp
  next
    case False
    have "even n \<and> (\<exists>k. n div 2 = 2 ^ k) \<longleftrightarrow> (\<exists>k. n = 2 ^ k)"
    proof
      assume h: "even n \<and> (\<exists>k. n div 2 = 2 ^ k)"
      then obtain k where "n div 2 = 2 ^ k" by blast
      with h have "n = 2 ^ Suc k" by auto
      then show "\<exists>k. n = 2 ^ k" ..
    next
      assume "\<exists>k. n = 2 ^ k"
      then obtain k where k: "n = 2 ^ k" ..
      with False obtain k' where "k = Suc k'" by (cases k) auto
      with k have "even n" "n div 2 = 2 ^ k'" by auto
      then show "even n \<and> (\<exists>k. n div 2 = 2 ^ k)" by blast
    qed
    with False "1.IH" show ?thesis by (subst is_power_of_2.simps) simp
  qed
qed

lemma log2_minus_trunc_iff:
  assumes "0 < s"
  shows "(log 2 (real s) - of_int (trunc (log 2 (real s))) = 0) \<longleftrightarrow> (\<exists>k. s = 2 ^ k)"
proof
  assume h: "log 2 (real s) - of_int (trunc (log 2 (real s))) = 0"
  have ge: "0 \<le> log 2 (real s)" using assms by simp
  then have "log 2 (real s) = of_int \<lfloor>log 2 (real s)\<rfloor>" using h by (simp add: trunc_def)
  moreover have "0 \<le> \<lfloor>log 2 (real s)\<rfloor>" using ge by simp
  ultimately obtain k :: nat where k: "log 2 (real s) = real k"
    by (metis of_int_of_nat_eq zero_le_imp_eq_int)
  have "real s = 2 powr (log 2 (real s))" using assms by simp
  also have "\<dots> = 2 ^ k" by (simp add: k powr_realpow)
  finally have "real s = real (2 ^ k)" by simp
  then have "s = 2 ^ k" using of_nat_eq_iff by blast
  then show "\<exists>k. s = 2 ^ k" ..
next
  assume "\<exists>k. s = 2 ^ k"
  then obtain k where "s = 2 ^ k" ..
  then have "log 2 (real s) = real k" by simp
  then show "log 2 (real s) - of_int (trunc (log 2 (real s))) = 0"
    by (simp add: trunc_def)
qed

lemma not_power_of_2_iff:
  assumes "s < 2 ^ 53"
  shows "not_power_of_2 s \<longleftrightarrow> \<not> is_power_of_2 s"
proof (cases "s = 0")
  case True
  then show ?thesis
    by (simp add: not_power_of_2_zero is_power_of_2_iff)
next
  case False
  then have "0 < s" by simp
  from log2_minus_trunc_iff[OF this] show ?thesis using assms False
    by (simp add: not_power_of_2_def to_double_def is_power_of_2_iff)
qed

lemma push_back_loop: "foldl (\<lambda>d i. d @ [x]) acc xs = acc @ replicate (length xs) x"
  by (induction xs arbitrary: acc) (simp_all add: replicate_app_Cons_same)

lemma Matrix_ctor_empty:
  assumes "\<not> not_power_of_2 s"
  shows "Matrix_ctor s True rnd = Inr \<lparr>m_size = s, m_data = replicate (size_t_wrap (s * s)) 0\<rparr>"
  using assms by (simp add: Matrix_ctor_def push_back_loop)

lemma square_bound: "s < 2 ^ 32 \<Longrightarrow> s * s < (2::nat) ^ 64"
proof -
  assume "s < 2 ^ 32"
  then have le: "s \<le> 2 ^ 32 - 1" by simp
  have "s * s \<le> (2 ^ 32 - 1) * (2 ^ 32 - 1)" using le le by (rule mult_le_mono)
  also have "\<dots> < (2::nat) ^ 64" by simp
  finally show ?thesis .
qed

lemma size_t_wrap_id: "n < 2 ^ 64 \<Longrightarrow> size_t_wrap n = n"
  by (simp add: size_t_wrap_def)

lemma mk_zero: "mk s (\<lambda>i j. 0) = \<lparr>m_size = s, m_data = replicate (s * s) 0\<rparr>"
  by (simp add: mk_def map_replicate_const)

lemma Matrix_new_ok:
  assumes "is_power_of_2 s" and "s < 2 ^ 32"
  shows "Matrix_new s = Inr (mk s (\<lambda>i j. 0))"
proof -
  from assms have "\<not> not_power_of_2 s" by (simp add: not_power_of_2_iff)
  moreover have "size_t_wrap (s * s) = s * s"
    using square_bound[OF assms(2)] by (rule size_t_wrap_id)
  ultimately show ?thesis
    by (simp add: Matrix_new_def Matrix_ctor_empty mk_zero)
qed

lemma cell_bound:
  assumes "i < s" and "j < s"
  shows "i * s + j < s * (s::nat)"
proof -
  have "i * s + j < i * s + s" using assms(2) by simp
  also have "\<dots> = Suc i * s" by simp
  also have "\<dots> \<le> s * s" using assms(1) by (metis Suc_leI mult_le_mono1)
  finally show ?thesis .
qed

lemma get_index_ok:
  assumes "m_size M = s" and "length (m_data M) = s * s" and "s * s < 2 ^ 64"
    and "i < s" and "j < s"
  shows "get_index M i j = Inr (i * s + j)"
proof -
  have "i * s + j < s * s" using assms(4,5) by (rule cell_bound)
  with assms(1,2,3) show ?thesis
    by (simp add: get_index_def size_t_wrap_id)
qed

lemma at_elem_ok:
  assumes "m_size M = s" and "length (m_data M) = s * s" and "s * s < 2 ^ 64"
    and "i < s" and "j < s"
  shows "at_elem M i j = Inr (el M i j)"
  using get_index_ok[OF assms] assms(1) by (simp add: at_elem_def el_def)

lemma at_ref_ok:
  assumes "m_size M = s" and "length (m_data M) = s * s" and "s * s < 2 ^ 64"
    and "i < s" and "j < s"
  shows "at_ref M i j = Inr (el M i j)"
  using get_index_ok[OF assms] assms(1) by (simp add: at_ref_def el_def)

lemma at_ref_assign_ok:
  assumes "m_size M = s" and "length (m_data M) = s * s" and "s * s < 2 ^ 64"
    and "i < s" and "j < s"
  shows "at_ref_assign M i j v = Inr (M\<lparr>m_data := (m_data M)[i * s + j := v]\<rparr>)"
  using get_index_ok[OF assms] by (simp add: at_ref_assign_def)

lemma for_each_append:
  "for_each (xs @ ys) body s =
     (case for_each xs body s of (Some e, s') \<Rightarrow> (Some e, s') | (None, s') \<Rightarrow> for_each ys body s')"
  by (induction xs arbitrary: s) (auto split: prod.splits option.splits)

lemma for_loop_0 [simp]: "for_loop 0 body s = (None, s)"
  by (simp add: for_loop_def)

lemma for_loop_Suc:
  "for_loop (Suc n) body s =
     (case for_loop n body s of (Some e, s') \<Rightarrow> (Some e, s') | (None, s') \<Rightarrow> body n s')"
  by (auto simp: for_loop_def for_each_append split: prod.splits option.splits)

lemma for_loop_rule:
  assumes "P 0 s"
    and "\<And>i t. i < n \<Longrightarrow> P i t \<Longrightarrow> \<exists>t'. body i t = (None, t') \<and> P (Suc i) t'"
  shows "\<exists>s'. for_loop n body s = (None, s') \<and> P n s'"
  using assms(2)
proof (induction n)
  case 0
  with assms(1) show ?case by simp
next
  case (Suc n)
  have "\<exists>s'. for_loop n body s = (None, s') \<and> P n s'"
    by (rule Suc.IH) (simp add: Suc.prems)
  then obtain s1 where s1: "for_loop n body s = (None, s1)" "P n s1" by blast
  from Suc.prems[of n s1] s1(2) obtain s2 where "body n s1 = (None, s2)" "P (Suc n) s2"
    by auto
  with s1(1) show ?case by (simp add: for_loop_Suc)
qed

lemma filled_0: "length old = n * n \<Longrightarrow> filled n g old 0 = \<lparr>m_size = n, m_data = old\<rparr>"
  by (simp add: filled_def map_nth[symmetric] del: map_nth) (metis map_nth)

lemma filled_full: "filled n g old (n * n) = mk n g"
  by (simp add: filled_def mk_def)

lemma filled_step:
  assumes "i < n" and "j < n" and "n * n < 2 ^ 64"
  shows "at_ref_assign (filled n g old (i * n + j)) i j (g i j) =
           Inr (filled n g old (Suc (i * n + j)))"
proof -
  let ?t = "i * n + j"
  have t: "?t < n * n" using assms(1,2) by (rule cell_bound)
  have dm: "?t div n = i" "?t mod n = j" using assms(2) by simp_all
  have "at_ref_assign (filled n g old ?t) i j (g i j) =
          Inr ((filled n g old ?t)\<lparr>m_data := (m_data (filled n g old ?t))[?t := g i j]\<rparr>)"
    by (rule at_ref_assign_ok[OF _ _ assms(3) assms(1,2)]) (simp_all add: filled_def)
  moreover have "(m_data (filled n g old ?t))[?t := g i j] = m_data (filled n g old (Suc ?t))"
    using t dm by (intro nth_equalityI) (auto simp: filled_def nth_list_update less_Suc_eq)
  ultimately show ?thesis by (simp add: filled_def)
qed

lemma fill_loop:
  fixes get :: "'s \<Rightarrow> Matrix" and put :: "'s \<Rightarrow> Matrix \<Rightarrow> 's"
  assumes get_put: "\<And>s M. get (put s M) = M"
    and put_put: "\<And>s M M'. put (put s M) M' = put s M'"
    and put_get: "put s0 (get s0) = s0"
    and rd: "\<And>i j M. i < n \<Longrightarrow> j < n \<Longrightarrow> rd i j (put s0 M) = Inr (g i j)"
    and shape: "m_size (get s0) = n" "length (m_data (get s0)) = n * n"
    and bound: "n * n < 2 ^ 64"
  shows "for_loop n (\<lambda>i.
           for_loop n (\<lambda>j s.
             case rd i j s of
               Inl e \<Rightarrow> (Some e, s)
             | Inr v \<Rightarrow>
                 (case at_ref_assign (get s) i j v of
                    Inl e \<Rightarrow> (Some e, s)
                  | Inr M \<Rightarrow> (None, put s M)))) s0 = (None, put s0 (mk n g))"
    (is "for_loop n (\<lambda>i. for_loop n (?body i)) s0 = _")
proof -
  define old where "old = m_data (get s0)"
  let ?F = "filled n g old"
  have cell: "?body i j (put s0 (?F (i * n + j))) = (None, put s0 (?F (Suc (i * n + j))))"
    if "i < n" "j < n" for i j
    using rd[OF that] filled_step[OF that bound] by (simp add: get_put put_put)
  have row: "for_loop n (?body i) (put s0 (?F (i * n))) = (None, put s0 (?F (Suc i * n)))"
    if "i < n" for i
  proof -
    have "\<exists>s'. for_loop n (?body i) (put s0 (?F (i * n))) = (None, s')
            \<and> s' = put s0 (?F (i * n + n))"
      by (rule for_loop_rule[where P = "\<lambda>j t. t = put s0 (?F (i * n + j))"])
        (use cell[OF that] in auto)
    then show ?thesis by (simp add: add.commute)
  qed
  have start: "s0 = put s0 (?F (0 * n))"
    using shape put_get by (simp add: filled_0 old_def) (metis Matrix.surjective old.unit.exhaust)
  have "\<exists>s'. for_loop n (\<lambda>i. for_loop n (?body i)) s0 = (None, s') \<and> s' = put s0 (?F (n * n))"
    by (rule for_loop_rule[where P = "\<lambda>i t. t = put s0 (?F (i * n))"])
      (use start row in auto)
  then show ?thesis by (simp add: filled_full)
qed

lemma m_size_mk [simp]: "m_size (mk s f) = s"
  by (simp add: mk_def)

lemma length_mk [simp]: "length (m_data (mk s f)) = s * s"
  by (simp add: mk_def)

lemma valid_mk: "is_power_of_2 s \<Longrightarrow> s < 2 ^ 32 \<Longrightarrow> valid (mk s f)"
  by (simp add: valid_def)

lemma el_mk:
  assumes "i < s" and "j < s"
  shows "el (mk s f) i j = f i j"
proof -
  have "i * s + j < s * s" using assms by (rule cell_bound)
  then show ?thesis using assms(2) by (simp add: el_def mk_def)
qed

lemma mk_cong:
  assumes "\<And>i j. i < s \<Longrightarrow> j < s \<Longrightarrow> f i j = g i j"
  shows "mk s f = mk s g"
proof -
  have "f (p div s) (p mod s) = g (p div s) (p mod s)" if "p < s * s" for p
  proof (rule assms)
    show "p div s < s" using that by (simp add: less_mult_imp_div_less)
    show "p mod s < s" using that by (cases "s = 0") simp_all
  qed
  then show ?thesis by (simp add: mk_def)
qed

lemma mk_el:
  assumes "m_size M = s" and "length (m_data M) = s * s"
  shows "mk s (el M) = M"
proof -
  have "map (\<lambda>p. m_data M ! (p div s * s + p mod s)) [0..<s * s] = m_data M"
    using assms(2) by (intro nth_equalityI) simp_all
  then have "mk s (el M) = \<lparr>m_size = m_size M, m_data = m_data M\<rparr>"
    using assms(1) by (simp add: mk_def el_def)
  then show ?thesis by simp
qed

lemma valid_shape:
  assumes "valid M"
  shows "length (m_data M) = m_size M * m_size M" and "m_size M * m_size M < 2 ^ 64"
    and "is_power_of_2 (m_size M)" and "m_size M < 2 ^ 32"
  using assms square_bound[of "m_size M"] by (simp_all add: valid_def)

lemma is_power_of_2_pos: "is_power_of_2 n \<Longrightarrow> 0 < n"
  by (auto simp: is_power_of_2_iff)

lemma is_power_of_2_half:
  assumes "is_power_of_2 n" and "n \<noteq> 1"
  shows "is_power_of_2 (n div 2)" and "even n"
  using assms by (subst (asm) is_power_of_2.simps, simp split: if_splits)+

lemma partition_mx_ok:
  assumes "valid M" and "m_size M \<noteq> 1"
    and "r + m_size M div 2 \<le> m_size M" and "c + m_size M div 2 \<le> m_size M"
  shows "partition_mx M r c = Inr (mk (m_size M div 2) (\<lambda>i j. el M (i + r) (j + c)))"
proof -
  let ?s = "m_size M" and ?k = "m_size M div 2"
  note sh = valid_shape[OF assms(1)]
  have k: "is_power_of_2 ?k" "?k < 2 ^ 32"
    using is_power_of_2_half(1)[OF sh(3) assms(2)] sh(4) by simp_all
  have new: "Matrix_new ?k = Inr (mk ?k (\<lambda>i j. 0))" using k by (rule Matrix_new_ok)
  have s64: "?s < 2 ^ 64" using sh(4) by (rule less_trans) simp
  have rd: "at_elem M (size_t_wrap (i + r)) (size_t_wrap (j + c)) = Inr (el M (i + r) (j + c))"
    if "i < ?k" "j < ?k" for i j
  proof -
    have ir: "i + r < ?s" and jc: "j + c < ?s" using that assms(3,4) by simp_all
    then have "size_t_wrap (i + r) = i + r" "size_t_wrap (j + c) = j + c"
      using s64 by (simp_all add: size_t_wrap_id)
    then show ?thesis using at_elem_ok[OF refl sh(1,2) ir jc] by simp
  qed
  have "for_loop ?k (\<lambda>i.
           for_loop ?k (\<lambda>j s.
             case (\<lambda>i j s. at_elem M (size_t_wrap (i + r)) (size_t_wrap (j + c))) i j s of
               Inl e \<Rightarrow> (Some e, s)
             | Inr v \<Rightarrow>
                 (case at_ref_assign ((\<lambda>s. s) s) i j v of
                    Inl e \<Rightarrow> (Some e, s)
                  | Inr M \<Rightarrow> (None, (\<lambda>s M. M) s M)))) (mk ?k (\<lambda>i j. 0))
        = (None, (\<lambda>s M. M) (mk ?k (\<lambda>i j. 0)) (mk ?k (\<lambda>i j. el M (i + r) (j + c))))"
    using square_bound[OF k(2)] by (intro fill_loop) (simp_all add: rd)
  then show ?thesis
    by (simp add: partition_mx_def Let_def new finish_def)
qed

lemma elementwise_loop:
  assumes "length (m_data R) = n"
  shows "for_loop n (\<lambda>i res. (None, res\<lparr>m_data := (m_data res)[i := f i]\<rparr>)) R
           = (None, R\<lparr>m_data := map f [0..<n]\<rparr>)"
proof -
  let ?body = "\<lambda>i res. (None :: error option, res\<lparr>m_data := (m_data res)[i := f i]\<rparr>)"
  have "\<exists>s'. for_loop n ?body R = (None, s')
          \<and> s' = R\<lparr>m_data := map f [0..<n] @ drop n (m_data R)\<rparr>"
  proof (rule for_loop_rule[where P = "\<lambda>i t. t = R\<lparr>m_data := map f [0..<i] @ drop i (m_data R)\<rparr>"])
    show "R = R\<lparr>m_data := map f [0..<0] @ drop 0 (m_data R)\<rparr>" by simp
  next
    fix i t
    assume i: "i < n" and t: "t = R\<lparr>m_data := map f [0..<i] @ drop i (m_data R)\<rparr>"
    have "(map f [0..<i] @ drop i (m_data R))[i := f i]
            = map f [0..<Suc i] @ drop (Suc i) (m_data R)"
      using i assms by (simp add: list_update_append Cons_nth_drop_Suc[symmetric])
    with t show "\<exists>t'. ?body i t = (None, t')
        \<and> t' = R\<lparr>m_data := map f [0..<Suc i] @ drop (Suc i) (m_data R)\<rparr>"
      by simp
  qed
  then show ?thesis using assms by simp
qed

lemma pointwise_data:
  assumes "m_size A = s" and "length (m_data A) = s * s"
    and "m_size B = s" and "length (m_data B) = s * s"
  shows "(mk s (\<lambda>i j. 0))\<lparr>m_data := map (\<lambda>p. h (m_data A ! p) (m_data B ! p)) [0..<s * s]\<rparr>
           = mk s (\<lambda>i j. h (el A i j) (el B i j))"
  by (simp add: mk_def el_def assms(1,3))

lemma elementwise_ok:
  assumes "valid A" and "valid B" and "m_size A = m_size B"
  shows "Matrix_new (m_size A) = Inr (mk (m_size A) (\<lambda>i j. 0))"
    and "for_loop (length (m_data A))
          (\<lambda>i res. (None, res\<lparr>m_data := (m_data res)[i := h (m_data A ! i) (m_data B ! i)]\<rparr>))
          (mk (m_size A) (\<lambda>i j. 0))
        = (None, mk (m_size A) (\<lambda>i j. h (el A i j) (el B i j)))"
proof -
  define s where "s = m_size A"
  note a = valid_shape[OF assms(1), folded s_def] and b = valid_shape[OF assms(2)]
  have bs: "m_size B = s" "length (m_data B) = s * s"
    using assms(3) b(1) by (simp_all add: s_def)
  show "Matrix_new (m_size A) = Inr (mk (m_size A) (\<lambda>i j. 0))"
    unfolding s_def[symmetric] using a(3,4) by (rule Matrix_new_ok)
  have "for_loop (s * s)
          (\<lambda>i res. (None, res\<lparr>m_data := (m_data res)[i := h (m_data A ! i) (m_data B ! i)]\<rparr>))
          (mk s (\<lambda>i j. 0))
        = (None, (mk s (\<lambda>i j. 0))\<lparr>m_data := map (\<lambda>i. h (m_data A ! i) (m_data B ! i))
             [0..<s * s]\<rparr>)"
    by (rule elementwise_loop) simp
  also have "(mk s (\<lambda>i j. 0))\<lparr>m_data := map (\<lambda>i. h (m_data A ! i) (m_data B ! i))
             [0..<s * s]\<rparr> = mk s (\<lambda>i j. h (el A i j) (el B i j))"
    using s_def[symmetric] a(1) bs by (rule pointwise_data)
  finally show "for_loop (length (m_data A))
          (\<lambda>i res. (None, res\<lparr>m_data := (m_data res)[i := h (m_data A ! i) (m_data B ! i)]\<rparr>))
          (mk (m_size A) (\<lambda>i j. 0))
        = (None, mk (m_size A) (\<lambda>i j. h (el A i j) (el B i j)))"
    unfolding a(1) s_def[symmetric] .
qed

lemma operator_plus_ok:
  assumes "valid A" and "valid B" and "m_size A = m_size B"
  shows "operator_plus A B = Inr (mk (m_size A) (\<lambda>i j. el A i j + el B i j))"
  using assms(3) elementwise_ok(1)[OF assms] elementwise_ok(2)[OF assms, where h = "(+)"]
  by (simp add: operator_plus_def finish_def)

lemma operator_minus_ok:
  assumes "valid A" and "valid B" and "m_size A = m_size B"
  shows "operator_minus A B = Inr (mk (m_size A) (\<lambda>i j. el A i j - el B i j))"
  using assms(3) elementwise_ok(1)[OF assms] elementwise_ok(2)[OF assms, where h = "(-)"]
  by (simp add: operator_minus_def finish_def)

lemma determine_quad_ok:
  assumes q: "m_size Q11 = k" "length (m_data Q11) = k * k"
      "m_size Q12 = k" "length (m_data Q12) = k * k"
      "m_size Q21 = k" "length (m_data Q21) = k * k"
      "m_size Q22 = k" "length (m_data Q22) = k * k"
    and kk: "k * k < 2 ^ 64"
    and ij: "i < 2 * k" "j < 2 * k"
  shows "determine_quad k Q11 Q12 Q21 Q22 i j =
           Inr (assemble k (el Q11) (el Q12) (el Q21) (el Q22) i j)"
proof -
  consider "i < k" "j < k" | "i < k" "k \<le> j" | "k \<le> i" "j < k" | "k \<le> i" "k \<le> j"
    by linarith
  then show ?thesis
  proof cases
    case 1
    then show ?thesis
      using at_ref_ok[OF q(1,2) kk, of i j] by (simp add: determine_quad_def assemble_def)
  next
    case 2
    then have "j - k < k" using ij by simp
    then show ?thesis
      using 2 at_ref_ok[OF q(3,4) kk, of i "j - k"] by (simp add: determine_quad_def assemble_def)
  next
    case 3
    then have "i - k < k" using ij by simp
    then show ?thesis
      using 3 at_ref_ok[OF q(5,6) kk, of "i - k" j] by (simp add: determine_quad_def assemble_def)
  next
    case 4
    then have "i - k < k" "j - k < k" using ij by simp_all
    then show ?thesis
      using 4 at_ref_ok[OF q(7,8) kk, of "i - k" "j - k"]
      by (simp add: determine_quad_def assemble_def)
  qed
qed

lemma combine_ok:
  assumes distinct: "R_11 \<noteq> self" "R_12 \<noteq> self" "R_21 \<noteq> self" "R_22 \<noteq> self"
    and self: "m_size (st self) = 2 * k" "length (m_data (st self)) = (2 * k) * (2 * k)"
      "(2 * k) * (2 * k) < 2 ^ 64"
    and q: "m_size (st R_11) = k" "length (m_data (st R_11)) = k * k"
      "m_size (st R_12) = k" "length (m_data (st R_12)) = k * k"
      "m_size (st R_21) = k" "length (m_data (st R_21)) = k * k"
      "m_size (st R_22) = k" "length (m_data (st R_22)) = k * k"
  shows "combine self R_11 R_12 R_21 R_22 st =
           (None, st(self := mk (2 * k)
              (assemble k (el (st R_11)) (el (st R_12)) (el (st R_21)) (el (st R_22)))))"
proof -
  have kk: "k * k < 2 ^ 64"
  proof -
    have "k * k \<le> (2 * k) * (2 * k)" by (intro mult_le_mono) simp_all
    with self(3) show ?thesis by simp
  qed
  have "for_loop (2 * k) (\<lambda>i.
           for_loop (2 * k) (\<lambda>j \<sigma>.
             case (\<lambda>i j \<sigma>. determine_quad k (\<sigma> R_11) (\<sigma> R_12) (\<sigma> R_21) (\<sigma> R_22) i j) i j \<sigma> of
               Inl e \<Rightarrow> (Some e, \<sigma>)
             | Inr v \<Rightarrow>
                 (case at_ref_assign ((\<lambda>\<sigma>. \<sigma> self) \<sigma>) i j v of
                    Inl e \<Rightarrow> (Some e, \<sigma>)
                  | Inr M \<Rightarrow> (None, (\<lambda>\<sigma> M. \<sigma>(self := M)) \<sigma> M)))) st
          = (None, (\<lambda>\<sigma> M. \<sigma>(self := M)) st (mk (2 * k)
              (assemble k (el (st R_11)) (el (st R_12)) (el (st R_21)) (el (st R_22)))))"
  proof (rule fill_loop)
    fix i j M
    assume "i < 2 * k" "j < 2 * k"
    then show "determine_quad k ((st(self := M)) R_11) ((st(self := M)) R_12)
        ((st(self := M)) R_21) ((st(self := M)) R_22) i j
      = Inr (assemble k (el (st R_11)) (el (st R_12)) (el (st R_21)) (el (st R_22)) i j)"
      using determine_quad_ok[OF q kk] distinct by simp
  qed (use self in simp_all)
  then show ?thesis using self(1) by (simp add: combine_def)
qed

lemma combine_locals_mk:
  assumes "(2 * k) * (2 * k) < (2::nat) ^ 64"
  shows "combine_locals (mk (2 * k) f) (mk k f11) (mk k f12) (mk k f21) (mk k f22) =
           Inr (mk (2 * k) (assemble k f11 f12 f21 f22))"
proof -
  let ?st = "locals (mk (2 * k) f) (mk k f11) (mk k f12) (mk k f21) (mk k f22)"
  have "combine 0 1 2 3 4 ?st =
          (None, ?st(0 := mk (2 * k)
              (assemble k (el (?st 1)) (el (?st 2)) (el (?st 3)) (el (?st 4)))))"
    using assms by (intro combine_ok) (simp_all add: locals_def)
  moreover have "mk (2 * k) (assemble k (el (?st 1)) (el (?st 2)) (el (?st 3)) (el (?st 4)))
      = mk (2 * k) (assemble k f11 f12 f21 f22)"
  proof (rule mk_cong)
    fix i j
    assume "i < 2 * k" "j < 2 * k"
    then show "assemble k (el (?st 1)) (el (?st 2)) (el (?st 3)) (el (?st 4)) i j
      = assemble k f11 f12 f21 f22 i j"
      by (auto simp: assemble_def locals_def el_mk)
  qed
  ultimately show ?thesis by (simp add: combine_locals_def)
qed

lemma partition_mx_mk:
  assumes "is_power_of_2 s" and "s < 2 ^ 32" and "s \<noteq> 1"
    and "r + s div 2 \<le> s" and "c + s div 2 \<le> s"
  shows "partition_mx (mk s f) r c = Inr (mk (s div 2) (\<lambda>i j. f (i + r) (j + c)))"
proof -
  have "partition_mx (mk s f) r c =
          Inr (mk (m_size (mk s f) div 2) (\<lambda>i j. el (mk s f) (i + r) (j + c)))"
    using assms by (intro partition_mx_ok valid_mk) simp_all
  moreover have "mk (s div 2) (\<lambda>i j. el (mk s f) (i + r) (j + c))
      = mk (s div 2) (\<lambda>i j. f (i + r) (j + c))"
    using assms(4,5) by (intro mk_cong el_mk) simp_all
  ultimately show ?thesis by simp
qed

lemma operator_plus_mk:
  assumes "is_power_of_2 s" and "s < 2 ^ 32"
  shows "operator_plus (mk s f) (mk s g) = Inr (mk s (\<lambda>i j. f i j + g i j))"
proof -
  have "operator_plus (mk s f) (mk s g)
      = Inr (mk (m_size (mk s f)) (\<lambda>i j. el (mk s f) i j + el (mk s g) i j))"
    using assms by (intro operator_plus_ok valid_mk) simp_all
  moreover have "mk s (\<lambda>i j. el (mk s f) i j + el (mk s g) i j) = mk s (\<lambda>i j. f i j + g i j)"
    by (rule mk_cong) (simp add: el_mk)
  ultimately show ?thesis by simp
qed

lemma operator_minus_mk:
  assumes "is_power_of_2 s" and "s < 2 ^ 32"
  shows "operator_minus (mk s f) (mk s g) = Inr (mk s (\<lambda>i j. f i j - g i j))"
proof -
  have "operator_minus (mk s f) (mk s g)
      = Inr (mk (m_size (mk s f)) (\<lambda>i j. el (mk s f) i j - el (mk s g) i j))"
    using assms by (intro operator_minus_ok valid_mk) simp_all
  moreover have "mk s (\<lambda>i j. el (mk s f) i j - el (mk s g) i j) = mk s (\<lambda>i j. f i j - g i j)"
    by (rule mk_cong) (simp add: el_mk)
  ultimately show ?thesis by simp
qed

lemma sum_split_half:
  fixes h :: "nat \<Rightarrow> cint"
  shows "(\<Sum>l<k. h l) + (\<Sum>l<k. h (l + k)) = (\<Sum>l<2 * k. h l)"
proof -
  have "(\<Sum>l<k + n. h l) = (\<Sum>l<k. h l) + (\<Sum>l<n. h (l + k))" for n
    by (induction n) (simp_all add: add.commute add.left_commute)
  from this[of k] show ?thesis by (simp add: mult_2)
qed

lemma mprod_blocks:
  "assemble k
     (\<lambda>i j. mprod k f (\<lambda>i j. g i j) i j + mprod k (\<lambda>i j. f i (j + k)) (\<lambda>i j. g (i + k) j) i j)
     (\<lambda>i j. mprod k f (\<lambda>i j. g i (j + k)) i j
           + mprod k (\<lambda>i j. f i (j + k)) (\<lambda>i j. g (i + k) (j + k)) i j)
     (\<lambda>i j. mprod k (\<lambda>i j. f (i + k) j) g i j
           + mprod k (\<lambda>i j. f (i + k) (j + k)) (\<lambda>i j. g (i + k) j) i j)
     (\<lambda>i j. mprod k (\<lambda>i j. f (i + k) j) (\<lambda>i j. g i (j + k)) i j
           + mprod k (\<lambda>i j. f (i + k) (j + k)) (\<lambda>i j. g (i + k) (j + k)) i j) i j
   = mprod (2 * k) f g i j"
proof -
  note sp = sum_split_half[of "\<lambda>l. f i l * g l j" k, symmetric]
  consider "i < k" "j < k" | "i < k" "k \<le> j" | "k \<le> i" "j < k" | "k \<le> i" "k \<le> j"
    by linarith
  then show ?thesis
    by cases (simp_all add: assemble_def mprod_def sp)
qed

lemma multiply_mk:
  assumes "is_power_of_2 s" and "s < 2 ^ 32"
  shows "multiply (mk s f) (mk s g) = Inr (mk s (mprod s f g))"
  using assms
proof (induction s arbitrary: f g rule: less_induct)
  case (less s)
  have new: "Matrix_new s = Inr (mk s (\<lambda>i j. 0))" using less.prems by (rule Matrix_new_ok)
  show ?case
  proof (cases "s = 1")
    case True
    have a: "at_elem (mk (Suc 0) h) 0 0 = Inr (h 0 0)" for h
      using at_elem_ok[of "mk (Suc 0) h" "Suc 0" 0 0] by (simp add: el_mk)
    have w: "at_ref_assign (mk (Suc 0) (\<lambda>i j. 0)) 0 0 v = Inr (mk (Suc 0) (\<lambda>i j. v))" for v
      using at_ref_assign_ok[of "mk (Suc 0) (\<lambda>i j. 0)" "Suc 0" 0 0 v] by (simp add: mk_def)
    have "mk (Suc 0) (\<lambda>i j. f 0 0 * g 0 0) = mk (Suc 0) (mprod (Suc 0) f g)"
      by (rule mk_cong) (simp add: mprod_def)
    then show ?thesis
      using True new by (subst multiply.simps) (simp add: a w)
  next
    case False
    define k where "k = s div 2"
    have k: "is_power_of_2 k" "k < 2 ^ 32" "k < s" "s = 2 * k"
      using is_power_of_2_half[OF less.prems(1) False] less.prems(2) is_power_of_2_pos[OF less.prems(1)]
      by (auto simp: k_def)
    have part: "partition_mx (mk s h) r c = Inr (mk k (\<lambda>i j. h (i + r) (j + c)))"
      if "r = 0 \<or> r = k" "c = 0 \<or> c = k" for h r c
    proof -
      have "r + k \<le> s" "c + k \<le> s" using that k(4) by auto
      then show ?thesis
        unfolding k_def using less.prems False by (intro partition_mx_mk)
    qed
    have mul: "multiply (mk k h1) (mk k h2) = Inr (mk k (mprod k h1 h2))" for h1 h2
      using k by (intro less.IH)
    have plus: "operator_plus (mk k h1) (mk k h2) = Inr (mk k (\<lambda>i j. h1 i j + h2 i j))" for h1 h2
      using k(1,2) by (rule operator_plus_mk)
    have comb: "combine_locals (mk s h) (mk k h11) (mk k h12) (mk k h21) (mk k h22) =
           Inr (mk s (assemble k h11 h12 h21 h22))" for h h11 h12 h21 h22
      unfolding k(4) using square_bound[OF less.prems(2)] k(4) by (intro combine_locals_mk) simp
    have "multiply (mk s f) (mk s g) = Inr (mk s (assemble k
     (\<lambda>i j. mprod k f (\<lambda>i j. g i j) i j + mprod k (\<lambda>i j. f i (j + k)) (\<lambda>i j. g (i + k) j) i j)
     (\<lambda>i j. mprod k f (\<lambda>i j. g i (j + k)) i j
           + mprod k (\<lambda>i j. f i (j + k)) (\<lambda>i j. g (i + k) (j + k)) i j)
     (\<lambda>i j. mprod k (\<lambda>i j. f (i + k) j) g i j
           + mprod k (\<lambda>i j. f (i + k) (j + k)) (\<lambda>i j. g (i + k) j) i j)
     (\<lambda>i j. mprod k (\<lambda>i j. f (i + k) j) (\<lambda>i j. g i (j + k)) i j
           + mprod k (\<lambda>i j. f (i + k) (j + k)) (\<lambda>i j. g (i + k) (j + k)) i j)))"
      using False new
      by (subst multiply.simps) (simp add: Let_def k_def[symmetric] part mul plus comb)
    also have "\<dots> = Inr (mk s (mprod s f g))"
      unfolding k(4) by (simp add: mprod_blocks[abs_def])
    finally show ?thesis .
  qed
qed

lemma strassen_sum_11:
  fixes a11 a12 a22 b11 b21 b22 :: "nat \<Rightarrow> cint"
  shows "(\<Sum>l<k. (a11 l + a22 l) * (b11 l + b22 l)) + (\<Sum>l<k. a22 l * (b21 l - b11 l))
           - (\<Sum>l<k. (a11 l + a12 l) * b22 l) + (\<Sum>l<k. (a12 l - a22 l) * (b21 l + b22 l))
         = (\<Sum>l<k. a11 l * b11 l) + (\<Sum>l<k. a12 l * b21 l)"
  by (simp add: algebra_simps sum.distrib sum_subtractf)

lemma strassen_sum_12:
  fixes a11 a12 b12 b22 :: "nat \<Rightarrow> cint"
  shows "(\<Sum>l<k. a11 l * (b12 l - b22 l)) + (\<Sum>l<k. (a11 l + a12 l) * b22 l)
         = (\<Sum>l<k. a11 l * b12 l) + (\<Sum>l<k. a12 l * b22 l)"
  by (simp add: algebra_simps sum.distrib sum_subtractf)

lemma strassen_sum_21:
  fixes a21 a22 b11 b21 :: "nat \<Rightarrow> cint"
  shows "(\<Sum>l<k. (a21 l + a22 l) * b11 l) + (\<Sum>l<k. a22 l * (b21 l - b11 l))
         = (\<Sum>l<k. a21 l * b11 l) + (\<Sum>l<k. a22 l * b21 l)"
  by (simp add: algebra_simps sum.distrib sum_subtractf)

lemma strassen_sum_22:
  fixes a11 a21 a22 b11 b12 b22 :: "nat \<Rightarrow> cint"
  shows "(\<Sum>l<k. (a11 l + a22 l) * (b11 l + b22 l)) + (\<Sum>l<k. a11 l * (b12 l - b22 l))
           - (\<Sum>l<k. (a21 l + a22 l) * b11 l) - (\<Sum>l<k. (a11 l - a21 l) * (b11 l + b12 l))
         = (\<Sum>l<k. a21 l * b12 l) + (\<Sum>l<k. a22 l * b22 l)"
  by (simp add: algebra_simps sum.distrib sum_subtractf)

lemma strassen_blocks:
  fixes f g :: "nat \<Rightarrow> nat \<Rightarrow> cint" and k :: nat
  defines "P1 \<equiv> mprod k f (\<lambda>i j. g i (j + k) - g (i + k) (j + k))"
    and "P2 \<equiv> mprod k (\<lambda>i j. f i j + f i (j + k)) (\<lambda>i j. g (i + k) (j + k))"
    and "P3 \<equiv> mprod k (\<lambda>i j. f (i + k) j + f (i + k) (j + k)) g"
    and "P4 \<equiv> mprod k (\<lambda>i j. f (i + k) (j + k)) (\<lambda>i j. g (i + k) j - g i j)"
    and "P5 \<equiv> mprod k (\<lambda>i j. f i j + f (i + k) (j + k)) (\<lambda>i j. g i j + g (i + k) (j + k))"
    and "P6 \<equiv> mprod k (\<lambda>i j. f i (j + k) - f (i + k) (j + k))
                 (\<lambda>i j. g (i + k) j + g (i + k) (j + k))"
    and "P7 \<equiv> mprod k (\<lambda>i j. f i j - f (i + k) j) (\<lambda>i j. g i j + g i (j + k))"
  shows "assemble k
     (\<lambda>i j. P5 i j + P4 i j - P2 i j + P6 i j)
     (\<lambda>i j. P1 i j + P2 i j)
     (\<lambda>i j. P3 i j + P4 i j)
     (\<lambda>i j. P5 i j + P1 i j - P3 i j - P7 i j) i j
   = mprod (2 * k) f g i j"
proof -
  note sp = sum_split_half[of "\<lambda>l. f i l * g l j" k, symmetric]
  consider "i < k" "j < k" | "i < k" "k \<le> j" | "k \<le> i" "j < k" | "k \<le> i" "k \<le> j"
    by linarith
  then show ?thesis
  proof cases
    case 1
    then show ?thesis
      unfolding assms
      using strassen_sum_11[where k = k and ?a11.0 = "\<lambda>l. f i l" and ?a22.0 = "\<lambda>l. f (i + k) (l + k)"
          and ?b11.0 = "\<lambda>l. g l j" and ?b22.0 = "\<lambda>l. g (l + k) (j + k)"
          and ?a12.0 = "\<lambda>l. f i (l + k)" and ?b21.0 = "\<lambda>l. g (l + k) j"]
      by (simp add: assemble_def mprod_def sp)
  next
    case 2
    then show ?thesis
      unfolding assms
      using strassen_sum_12[where k = k and ?a11.0 = "\<lambda>l. f i l" and ?b12.0 = "\<lambda>l. g l j"
          and ?b22.0 = "\<lambda>l. g (l + k) j" and ?a12.0 = "\<lambda>l. f i (l + k)"]
      by (simp add: assemble_def mprod_def sp)
  next
    case 3
    then show ?thesis
      unfolding assms
      using strassen_sum_21[where k = k and ?a21.0 = "\<lambda>l. f i l" and ?a22.0 = "\<lambda>l. f i (l + k)"
          and ?b11.0 = "\<lambda>l. g l j" and ?b21.0 = "\<lambda>l. g (l + k) j"]
      by (simp add: assemble_def mprod_def sp)
  next
    case 4
    then show ?thesis
      unfolding assms
      using strassen_sum_22[where k = k and ?a11.0 = "\<lambda>l. f (i - k) l" and ?a22.0 = "\<lambda>l. f i (l + k)"
          and ?b11.0 = "\<lambda>l. g l (j - k)" and ?b22.0 = "\<lambda>l. g (l + k) j"
          and ?b12.0 = "\<lambda>l. g l j" and ?a21.0 = "\<lambda>l. f i l"]
      by (simp add: assemble_def mprod_def sp)
  qed
qed

lemma strassen_mk:
  assumes "is_power_of_2 s" and "s < 2 ^ 32"
  shows "strassen (mk s f) (mk s g) = Inr (mk s (mprod s f g))"
proof (cases "s = 1")
  case True
  then show ?thesis using multiply_mk[OF assms] by (simp add: strassen_def)
next
  case False
  have new: "Matrix_new s = Inr (mk s (\<lambda>i j. 0))" using assms by (rule Matrix_new_ok)
  define k where "k = s div 2"
  have k: "is_power_of_2 k" "k < 2 ^ 32" "k < s" "s = 2 * k"
    using is_power_of_2_half[OF assms(1) False] assms(2) is_power_of_2_pos[OF assms(1)]
    by (auto simp: k_def)
  have part: "partition_mx (mk s h) r c = Inr (mk k (\<lambda>i j. h (i + r) (j + c)))"
    if "r = 0 \<or> r = k" "c = 0 \<or> c = k" for h r c
  proof -
    have "r + k \<le> s" "c + k \<le> s" using that k(4) by auto
    then show ?thesis
      unfolding k_def using assms False by (intro partition_mx_mk)
  qed
  have mul: "multiply (mk k h1) (mk k h2) = Inr (mk k (mprod k h1 h2))" for h1 h2
    using k(1,2) by (rule multiply_mk)
  have plus: "operator_plus (mk k h1) (mk k h2) = Inr (mk k (\<lambda>i j. h1 i j + h2 i j))" for h1 h2
    using k(1,2) by (rule operator_plus_mk)
  have minus: "operator_minus (mk k h1) (mk k h2) = Inr (mk k (\<lambda>i j. h1 i j - h2 i j))" for h1 h2
    using k(1,2) by (rule operator_minus_mk)
  have comb: "combine_locals (mk s h) (mk k h11) (mk k h12) (mk k h21) (mk k h22) =
         Inr (mk s (assemble k h11 h12 h21 h22))" for h h11 h12 h21 h22
    unfolding k(4) using square_bound[OF assms(2)] k(4) by (intro combine_locals_mk) simp
  have "strassen (mk s f) (mk s g) = Inr (mk s (assemble k
     (\<lambda>i j. mprod k (\<lambda>i j. f i j + f (i + k) (j + k)) (\<lambda>i j. g i j + g (i + k) (j + k)) i j
           + mprod k (\<lambda>i j. f (i + k) (j + k)) (\<lambda>i j. g (i + k) j - g i j) i j
           - mprod k (\<lambda>i j. f i j + f i (j + k)) (\<lambda>i j. g (i + k) (j + k)) i j
           + mprod k (\<lambda>i j. f i (j + k) - f (i + k) (j + k))
               (\<lambda>i j. g (i + k) j + g (i + k) (j + k)) i j)
     (\<lambda>i j. mprod k f (\<lambda>i j. g i (j + k) - g (i + k) (j + k)) i j
           + mprod k (\<lambda>i j. f i j + f i (j + k)) (\<lambda>i j. g (i + k) (j + k)) i j)
     (\<lambda>i j. mprod k (\<lambda>i j. f (i + k) j + f (i + k) (j + k)) g i j
           + mprod k (\<lambda>i j. f (i + k) (j + k)) (\<lambda>i j. g (i + k) j - g i j) i j)
     (\<lambda>i j. mprod k (\<lambda>i j. f i j + f (i + k) (j + k)) (\<lambda>i j. g i j + g (i + k) (j + k)) i j
           + mprod k f (\<lambda>i j. g i (j + k) - g (i + k) (j + k)) i j
           - mprod k (\<lambda>i j. f (i + k) j + f (i + k) (j + k)) g i j
           - mprod k (\<lambda>i j. f i j - f (i + k) j) (\<lambda>i j. g i j + g i (j + k)) i j)))"
    using False new
    by (simp add: strassen_def strassen_P1_def strassen_P2_def strassen_P3_def strassen_P4_def
        strassen_P5_def strassen_P6_def strassen_P7_def Let_def k_def[symmetric]
        part mul plus minus comb)
  also have "\<dots> = Inr (mk s (mprod s f g))"
    unfolding k(4) by (simp add: strassen_blocks[abs_def])
  finally show ?thesis .
qed

section \<open>The products\<close>

lemma concat_rows:
  "concat (map (\<lambda>i. map (\<lambda>j. h i j) [0..<n]) [0..<m]) = map (\<lambda>p. h (p div n) (p mod n)) [0..<m * n]"
proof (induction m)
  case 0
  then show ?case by simp
next
  case (Suc m)
  have "map (\<lambda>p. h (p div n) (p mod n)) [m * n..<m * n + n] = map (\<lambda>j. h m j) [0..<n]"
    by (rule nth_equalityI) simp_all
  moreover have "[0..<m * n + n] = [0..<m * n] @ [m * n..<m * n + n]"
    by (rule upt_add_eq_append) simp
  moreover have "Suc m * n = m * n + n" by simp
  ultimately show ?case using Suc.IH by (simp del: mult_Suc)
qed

lemma reference_product_mk:
  assumes "m_size B = m_size A"
  shows "reference_product A B = mk (m_size A) (mprod (m_size A) (el A) (el B))"
proof -
  have "sum_list (map h [0..<n]) = (\<Sum>l<n. h l)" for h :: "nat \<Rightarrow> cint" and n
    by (simp add: interv_sum_list_conv_sum_set_nat atLeast0LessThan)
  then show ?thesis
    using assms by (simp add: reference_product_def Let_def concat_rows mk_def mprod_def el_def)
qed

lemma multiply_valid:
  assumes "valid A" and "valid B" and "m_size A = m_size B"
  shows "multiply A B = Inr (mk (m_size A) (mprod (m_size A) (el A) (el B)))"
proof -
  note a = valid_shape[OF assms(1)] and b = valid_shape[OF assms(2)]
  have "mk (m_size A) (el A) = A" using refl a(1) by (rule mk_el)
  moreover have "mk (m_size A) (el B) = B" using assms(3)[symmetric] b(1) by (simp add: mk_el)
  ultimately show ?thesis
    using multiply_mk[OF a(3,4), of "el A" "el B"] by simp
qed

lemma strassen_valid:
  assumes "valid A" and "valid B" and "m_size A = m_size B"
  shows "strassen A B = Inr (mk (m_size A) (mprod (m_size A) (el A) (el B)))"
proof -
  note a = valid_shape[OF assms(1)] and b = valid_shape[OF assms(2)]
  have "mk (m_size A) (el A) = A" using refl a(1) by (rule mk_el)
  moreover have "mk (m_size A) (el B) = B" using assms(3)[symmetric] b(1) by (simp add: mk_el)
  ultimately show ?thesis
    using strassen_mk[OF a(3,4), of "el A" "el B"] by simp
qed

lemma valid_2x2: "valid \<lparr>m_size = 2, m_data = [a, b, c, d]\<rparr>"
  by (simp add: valid_def is_power_of_2.simps)

lemma valid_1x1: "valid \<lparr>m_size = 1, m_data = [a]\<rparr>"
  by (simp add: valid_def is_power_of_2.simps)

lemma upt_2: "[0..<2] = [0, 1]"
  by (simp add: upt_rec)

lemma reference_2x2:
  "reference_product \<lparr>m_size = 2, m_data = [1, 2, 3, 4]\<rparr> \<lparr>m_size = 2, m_data = [5, 6, 7, 8]\<rparr>
     = \<lparr>m_size = 2, m_data = [19, 22, 43, 50]\<rparr>"
  by (simp add: reference_product_def upt_2)

lemma reference_1x1:
  "reference_product \<lparr>m_size = 1, m_data = [7]\<rparr> \<lparr>m_size = 1, m_data = [6]\<rparr>
     = \<lparr>m_size = 1, m_data = [42]\<rparr>"
  by (simp add: reference_product_def)

lemma mprod_integer_product:
  "mprod (m_size A) (el A) (el B) i j = word_of_int (integer_product A B i j)"
  by (simp add: mprod_def integer_product_def)

lemma sint_word_of_int_32:
  assumes "- (2 ^ 31) \<le> x" and "x < 2 ^ 31"
  shows "sint (word_of_int x :: cint) = x"
  using assms by (simp add: sint_sbintrunc' signed_take_bit_int_eq_self)

lemma product_element:
  assumes "m_size A = m_size B" and "i < m_size A" and "j < m_size A"
    and "- (2 ^ 31) \<le> integer_product A B i j" and "integer_product A B i j < 2 ^ 31"
  shows "sint (el (reference_product A B) i j) = integer_product A B i j"
proof -
  have "reference_product A B = mk (m_size A) (mprod (m_size A) (el A) (el B))"
    using assms(1) by (intro reference_product_mk) simp
  then have "el (reference_product A B) i j = mprod (m_size A) (el A) (el B) i j"
    using assms(2,3) by (simp only: el_mk)
  then have "el (reference_product A B) i j = word_of_int (integer_product A B i j)"
    by (simp only: mprod_integer_product)
  then show ?thesis using assms(4,5) by (simp only: sint_word_of_int_32)
qed

lemma integer_2x2:
  "integer_product \<lparr>m_size = 2, m_data = [1, 2, 3, 4]\<rparr> \<lparr>m_size = 2, m_data = [5, 6, 7, 8]\<rparr> 0 0 = 19"
  by (simp add: integer_product_def el_def numeral_2_eq_2)

text \<open>
  Claim C1. For every pair of well-formed matrices \<open>A\<close> and \<open>B\<close> of the same power-of-two
  size, \<open>multiply\<close> and \<open>strassen\<close> both return the reference product, element by element
  (and an element of the reference product, read as signed, is the sum of products over the
  integers whenever that sum is an \<^verbatim>\<open>int\<close>); for \<open>[[1,2],[3,4]]\<close> and \<open>[[5,6],[7,8]]\<close> both
  return \<open>[[19,22],[43,50]]\<close>, and for \<open>[[7]]\<close> and \<open>[[6]]\<close> both return \<open>[[42]]\<close>.
\<close>

theorem multiply_strassen_product:
  "(\<forall>A B. valid A \<and> valid B \<and> m_size A = m_size B \<longrightarrow>
      multiply A B = Inr (reference_product A B) \<and> strassen A B = Inr (reference_product A B))
   \<and> (\<forall>A B i j. m_size A = m_size B \<and> i < m_size A \<and> j < m_size A
        \<and> - (2 ^ 31) \<le> integer_product A B i j \<and> integer_product A B i j < 2 ^ 31 \<longrightarrow>
      sint (el (reference_product A B) i j) = integer_product A B i j)
   \<and> multiply \<lparr>m_size = 2, m_data = [1, 2, 3, 4]\<rparr> \<lparr>m_size = 2, m_data = [5, 6, 7, 8]\<rparr>
       = Inr \<lparr>m_size = 2, m_data = [19, 22, 43, 50]\<rparr>
   \<and> strassen \<lparr>m_size = 2, m_data = [1, 2, 3, 4]\<rparr> \<lparr>m_size = 2, m_data = [5, 6, 7, 8]\<rparr>
       = Inr \<lparr>m_size = 2, m_data = [19, 22, 43, 50]\<rparr>
   \<and> multiply \<lparr>m_size = 1, m_data = [7]\<rparr> \<lparr>m_size = 1, m_data = [6]\<rparr>
       = Inr \<lparr>m_size = 1, m_data = [42]\<rparr>
   \<and> strassen \<lparr>m_size = 1, m_data = [7]\<rparr> \<lparr>m_size = 1, m_data = [6]\<rparr>
       = Inr \<lparr>m_size = 1, m_data = [42]\<rparr>"
proof -
  have gen: "multiply A B = Inr (reference_product A B) \<and> strassen A B = Inr (reference_product A B)"
    if "valid A" "valid B" "m_size A = m_size B" for A B
    using multiply_valid[OF that] strassen_valid[OF that] reference_product_mk[of B A] that(3)
    by simp
  have s2: "m_size \<lparr>m_size = 2, m_data = [1, 2, 3, 4]\<rparr> = m_size \<lparr>m_size = 2, m_data = [5, 6, 7, 8 :: cint]\<rparr>"
    and s1: "m_size \<lparr>m_size = 1, m_data = [7]\<rparr> = m_size \<lparr>m_size = 1, m_data = [6 :: cint]\<rparr>"
    by simp_all
  note e2 = gen[OF valid_2x2 valid_2x2 s2, unfolded reference_2x2]
  note e1 = gen[OF valid_1x1 valid_1x1 s1, unfolded reference_1x1]
  from gen product_element e2 e1 show ?thesis by blast
qed

theorem multiply_strassen_product_witness:
  "valid \<lparr>m_size = 2, m_data = [1, 2, 3, 4]\<rparr> \<and> valid \<lparr>m_size = 2, m_data = [5, 6, 7, 8]\<rparr>
   \<and> m_size \<lparr>m_size = 2, m_data = [1, 2, 3, 4]\<rparr> = m_size \<lparr>m_size = 2, m_data = [5, 6, 7, 8 :: cint]\<rparr>
   \<and> multiply \<lparr>m_size = 2, m_data = [1, 2, 3, 4]\<rparr> \<lparr>m_size = 2, m_data = [5, 6, 7, 8]\<rparr>
       = Inr (reference_product \<lparr>m_size = 2, m_data = [1, 2, 3, 4]\<rparr> \<lparr>m_size = 2, m_data = [5, 6, 7, 8]\<rparr>)
   \<and> strassen \<lparr>m_size = 2, m_data = [1, 2, 3, 4]\<rparr> \<lparr>m_size = 2, m_data = [5, 6, 7, 8]\<rparr>
       = Inr (reference_product \<lparr>m_size = 2, m_data = [1, 2, 3, 4]\<rparr> \<lparr>m_size = 2, m_data = [5, 6, 7, 8]\<rparr>)
   \<and> reference_product \<lparr>m_size = 2, m_data = [1, 2, 3, 4]\<rparr> \<lparr>m_size = 2, m_data = [5, 6, 7, 8]\<rparr>
       = \<lparr>m_size = 2, m_data = [19, 22, 43, 50]\<rparr>
   \<and> (0::nat) < m_size \<lparr>m_size = 2, m_data = [1, 2, 3, 4 :: cint]\<rparr>
   \<and> integer_product \<lparr>m_size = 2, m_data = [1, 2, 3, 4]\<rparr> \<lparr>m_size = 2, m_data = [5, 6, 7, 8]\<rparr> 0 0 = 19
   \<and> - (2 ^ 31) \<le> (19::int) \<and> (19::int) < 2 ^ 31
   \<and> sint (el (reference_product \<lparr>m_size = 2, m_data = [1, 2, 3, 4]\<rparr>
         \<lparr>m_size = 2, m_data = [5, 6, 7, 8]\<rparr>) 0 0) = 19"
proof -
  let ?A = "\<lparr>m_size = 2, m_data = [1, 2, 3, 4 :: cint]\<rparr>"
  let ?B = "\<lparr>m_size = 2, m_data = [5, 6, 7, 8 :: cint]\<rparr>"
  have v: "valid ?A" "valid ?B"
    by (simp_all add: valid_def is_power_of_2.simps)
  have sz: "m_size ?A = m_size ?B" and pos: "(0::nat) < m_size ?A" by simp_all
  have rng: "- (2 ^ 31) \<le> (19::int)" "(19::int) < 2 ^ 31" by simp_all
  note g = multiply_strassen_product[THEN conjunct1, rule_format, of ?A ?B,
      OF conjI[OF v(1) conjI[OF v(2) sz]]]
  have "sint (el (reference_product ?A ?B) 0 0) = integer_product ?A ?B 0 0"
    by (rule multiply_strassen_product[THEN conjunct2, THEN conjunct1, rule_format])
      (simp add: integer_2x2)
  then have i: "sint (el (reference_product ?A ?B) 0 0) = 19" by (simp only: integer_2x2)
  from v sz g pos rng i integer_2x2 reference_2x2 show ?thesis by blast
qed

text \<open>
  Claim C2. For every pair of well-formed matrices \<open>A\<close> and \<open>B\<close> of the same power-of-two
  size, \<open>strassen\<close> returns exactly the matrix that \<open>multiply\<close> returns (and \<open>multiply\<close> does
  return one).
\<close>

theorem strassen_equals_multiply:
  assumes "valid A" and "valid B" and "m_size A = m_size B"
  shows "strassen A B = multiply A B \<and> (\<exists>R. multiply A B = Inr R)"
  using multiply_valid[OF assms] strassen_valid[OF assms] by simp

theorem strassen_equals_multiply_witness:
  "valid \<lparr>m_size = 4, m_data = [1, 2, 3, 4, 5, 6, 7, 8, 9, 10, 11, 12, 13, 14, 15, 16]\<rparr>
   \<and> valid \<lparr>m_size = 4, m_data = [1, 0, 0, 0, 0, 1, 0, 0, 0, 0, 1, 0, 0, 0, 0, 1]\<rparr>
   \<and> m_size \<lparr>m_size = 4, m_data = [1, 2, 3, 4, 5, 6, 7, 8, 9, 10, 11, 12, 13, 14, 15, 16 :: cint]\<rparr>
       = m_size \<lparr>m_size = 4, m_data = [1, 0, 0, 0, 0, 1, 0, 0, 0, 0, 1, 0, 0, 0, 0, 1 :: cint]\<rparr>
   \<and> strassen \<lparr>m_size = 4, m_data = [1, 2, 3, 4, 5, 6, 7, 8, 9, 10, 11, 12, 13, 14, 15, 16]\<rparr>
         \<lparr>m_size = 4, m_data = [1, 0, 0, 0, 0, 1, 0, 0, 0, 0, 1, 0, 0, 0, 0, 1]\<rparr>
       = multiply \<lparr>m_size = 4, m_data = [1, 2, 3, 4, 5, 6, 7, 8, 9, 10, 11, 12, 13, 14, 15, 16]\<rparr>
         \<lparr>m_size = 4, m_data = [1, 0, 0, 0, 0, 1, 0, 0, 0, 0, 1, 0, 0, 0, 0, 1]\<rparr>
   \<and> (\<exists>R. multiply \<lparr>m_size = 4, m_data = [1, 2, 3, 4, 5, 6, 7, 8, 9, 10, 11, 12, 13, 14, 15, 16]\<rparr>
         \<lparr>m_size = 4, m_data = [1, 0, 0, 0, 0, 1, 0, 0, 0, 0, 1, 0, 0, 0, 0, 1]\<rparr> = Inr R)"
proof -
  have v: "valid \<lparr>m_size = 4, m_data = [1, 2, 3, 4, 5, 6, 7, 8, 9, 10, 11, 12, 13, 14, 15, 16]\<rparr>"
    "valid \<lparr>m_size = 4, m_data = [1, 0, 0, 0, 0, 1, 0, 0, 0, 0, 1, 0, 0, 0, 0, 1]\<rparr>"
    by (simp_all add: valid_def is_power_of_2.simps)
  have sz: "m_size \<lparr>m_size = 4, m_data = [1, 2, 3, 4, 5, 6, 7, 8, 9, 10, 11, 12, 13, 14, 15, 16 :: cint]\<rparr>
       = m_size \<lparr>m_size = 4, m_data = [1, 0, 0, 0, 0, 1, 0, 0, 0, 0, 1, 0, 0, 0, 0, 1 :: cint]\<rparr>"
    by simp
  from v sz strassen_equals_multiply[OF v sz] show ?thesis by blast
qed

section \<open>Partition and combine are inverse\<close>

text \<open>
  Claim C4. For every well-formed matrix \<open>M\<close> of even size \<open>s\<close>, the four calls of
  \<open>partition\<close> at the corners \<open>(0,0)\<close>, \<open>(0,s/2)\<close>, \<open>(s/2,0)\<close> and \<open>(s/2,s/2)\<close> return the
  four quadrants, and \<open>combine\<close> on any matrix of size \<open>s\<close> with those four quadrants makes
  the receiver equal to \<open>M\<close>, element for element.
\<close>

theorem partition_combine_roundtrip:
  assumes "valid M" and "even (m_size M)"
  shows "\<exists>Q11 Q12 Q21 Q22.
           partition_mx M 0 0 = Inr Q11
         \<and> partition_mx M 0 (m_size M div 2) = Inr Q12
         \<and> partition_mx M (m_size M div 2) 0 = Inr Q21
         \<and> partition_mx M (m_size M div 2) (m_size M div 2) = Inr Q22
         \<and> (\<forall>st self q11 q12 q21 q22.
               q11 \<noteq> self \<and> q12 \<noteq> self \<and> q21 \<noteq> self \<and> q22 \<noteq> self
               \<and> valid (st self) \<and> m_size (st self) = m_size M
               \<and> st q11 = Q11 \<and> st q12 = Q12 \<and> st q21 = Q21 \<and> st q22 = Q22
               \<longrightarrow> combine self q11 q12 q21 q22 st = (None, st(self := M)))"
proof -
  define s where "s = m_size M"
  define k where "k = s div 2"
  note m = valid_shape[OF assms(1), folded s_def]
  have ne: "m_size M \<noteq> 1" using assms(2) by auto
  have sk: "s = 2 * k" using assms(2) by (simp add: k_def s_def)
  let ?Q = "\<lambda>r c. mk k (\<lambda>i j. el M (i + r) (j + c))"
  have part: "partition_mx M r c = Inr (?Q r c)" if "r = 0 \<or> r = k" "c = 0 \<or> c = k" for r c
  proof -
    have "r + m_size M div 2 \<le> m_size M" "c + m_size M div 2 \<le> m_size M"
      using that sk by (auto simp: s_def[symmetric])
    from partition_mx_ok[OF assms(1) ne this] show ?thesis by (simp add: k_def s_def)
  qed
  have comb: "combine self q11 q12 q21 q22 st = (None, st(self := M))"
    if d: "q11 \<noteq> self" "q12 \<noteq> self" "q21 \<noteq> self" "q22 \<noteq> self"
      and r: "valid (st self)" "m_size (st self) = m_size M"
      and q: "st q11 = ?Q 0 0" "st q12 = ?Q 0 k" "st q21 = ?Q k 0" "st q22 = ?Q k k"
    for st self q11 q12 q21 q22
  proof -
    note rs = valid_shape[OF r(1)]
    have "combine self q11 q12 q21 q22 st =
           (None, st(self := mk (2 * k)
              (assemble k (el (st q11)) (el (st q12)) (el (st q21)) (el (st q22)))))"
      using d rs(1,2) r(2) by (intro combine_ok) (simp_all add: q s_def[symmetric] sk)
    moreover have "mk (2 * k) (assemble k (el (st q11)) (el (st q12)) (el (st q21)) (el (st q22)))
        = mk (2 * k) (el M)"
    proof (rule mk_cong)
      fix i j
      assume "i < 2 * k" "j < 2 * k"
      then show "assemble k (el (st q11)) (el (st q12)) (el (st q21)) (el (st q22)) i j = el M i j"
        by (auto simp: assemble_def q el_mk)
    qed
    moreover have "mk (2 * k) (el M) = M" using m(1) by (simp add: mk_el sk[symmetric] s_def)
    ultimately show ?thesis by simp
  qed
  show ?thesis
    using part comb by (auto simp: k_def[symmetric] s_def[symmetric])
qed

theorem partition_combine_roundtrip_witness:
  "valid \<lparr>m_size = 2, m_data = [1, 2, 3, 4]\<rparr>
   \<and> even (m_size \<lparr>m_size = 2, m_data = [1, 2, 3, 4 :: cint]\<rparr>)
   \<and> partition_mx \<lparr>m_size = 2, m_data = [1, 2, 3, 4]\<rparr> 0 0 = Inr \<lparr>m_size = 1, m_data = [1]\<rparr>
   \<and> partition_mx \<lparr>m_size = 2, m_data = [1, 2, 3, 4]\<rparr> 0 1 = Inr \<lparr>m_size = 1, m_data = [2]\<rparr>
   \<and> partition_mx \<lparr>m_size = 2, m_data = [1, 2, 3, 4]\<rparr> 1 0 = Inr \<lparr>m_size = 1, m_data = [3]\<rparr>
   \<and> partition_mx \<lparr>m_size = 2, m_data = [1, 2, 3, 4]\<rparr> 1 1 = Inr \<lparr>m_size = 1, m_data = [4]\<rparr>
   \<and> combine 0 1 2 3 4
         (locals \<lparr>m_size = 2, m_data = [0, 0, 0, 0]\<rparr> \<lparr>m_size = 1, m_data = [1]\<rparr>
            \<lparr>m_size = 1, m_data = [2]\<rparr> \<lparr>m_size = 1, m_data = [3]\<rparr> \<lparr>m_size = 1, m_data = [4]\<rparr>)
       = (None, (locals \<lparr>m_size = 2, m_data = [0, 0, 0, 0]\<rparr> \<lparr>m_size = 1, m_data = [1]\<rparr>
            \<lparr>m_size = 1, m_data = [2]\<rparr> \<lparr>m_size = 1, m_data = [3]\<rparr> \<lparr>m_size = 1, m_data = [4]\<rparr>)
              (0 := \<lparr>m_size = 2, m_data = [1, 2, 3, 4]\<rparr>))"
proof -
  let ?M = "\<lparr>m_size = 2, m_data = [1, 2, 3, 4 :: cint]\<rparr>"
  let ?st = "locals \<lparr>m_size = 2, m_data = [0, 0, 0, 0]\<rparr> \<lparr>m_size = 1, m_data = [1]\<rparr>
            \<lparr>m_size = 1, m_data = [2]\<rparr> \<lparr>m_size = 1, m_data = [3]\<rparr> \<lparr>m_size = 1, m_data = [4]\<rparr>"
  have v: "valid ?M" and e: "even (m_size ?M)" and h: "m_size ?M div 2 = 1"
    by (simp_all add: valid_def is_power_of_2.simps)
  have ne: "m_size ?M \<noteq> 1" by simp
  have p: "partition_mx ?M 0 0 = Inr \<lparr>m_size = 1, m_data = [1]\<rparr>"
    "partition_mx ?M 0 1 = Inr \<lparr>m_size = 1, m_data = [2]\<rparr>"
    "partition_mx ?M 1 0 = Inr \<lparr>m_size = 1, m_data = [3]\<rparr>"
    "partition_mx ?M 1 1 = Inr \<lparr>m_size = 1, m_data = [4]\<rparr>"
    using partition_mx_ok[OF v ne, of 0 0] partition_mx_ok[OF v ne, of 0 1]
      partition_mx_ok[OF v ne, of 1 0] partition_mx_ok[OF v ne, of 1 1]
    by (simp_all add: mk_def el_def)
  from partition_combine_roundtrip[OF v e] obtain Q11 Q12 Q21 Q22 where
    q: "partition_mx ?M 0 0 = Inr Q11" "partition_mx ?M 0 (m_size ?M div 2) = Inr Q12"
      "partition_mx ?M (m_size ?M div 2) 0 = Inr Q21"
      "partition_mx ?M (m_size ?M div 2) (m_size ?M div 2) = Inr Q22"
    and c: "\<And>st self q11 q12 q21 q22.
               q11 \<noteq> self \<and> q12 \<noteq> self \<and> q21 \<noteq> self \<and> q22 \<noteq> self
               \<and> valid (st self) \<and> m_size (st self) = m_size ?M
               \<and> st q11 = Q11 \<and> st q12 = Q12 \<and> st q21 = Q21 \<and> st q22 = Q22
               \<Longrightarrow> combine self q11 q12 q21 q22 st = (None, st(self := ?M))"
    by blast
  from q p have Q: "Q11 = \<lparr>m_size = 1, m_data = [1]\<rparr>" "Q12 = \<lparr>m_size = 1, m_data = [2]\<rparr>"
    "Q21 = \<lparr>m_size = 1, m_data = [3]\<rparr>" "Q22 = \<lparr>m_size = 1, m_data = [4]\<rparr>"
    unfolding h by simp_all
  have "combine 0 1 2 3 4 ?st = (None, ?st(0 := ?M))"
    by (rule c) (simp add: locals_def Q valid_def is_power_of_2.simps)
  with v e p show ?thesis by blast
qed

section \<open>Element access\<close>

text \<open>
  Claim C5 (as stated) says that the bounds check of element access rejects every access
  with \<open>r \<ge> size\<close> or \<open>c \<ge> size\<close>. It does not: in the 2x2 matrix \<open>[[1,2],[3,4]]\<close> the access
  \<open>(0, 2)\<close> has the offset \<open>2 < 4\<close> and returns the element \<open>3\<close> of row 1.
\<close>

theorem at_column_out_of_range_accepted:
  "m_size \<lparr>m_size = 2, m_data = [1, 2, 3, 4 :: cint]\<rparr> \<le> 2
   \<and> at_elem \<lparr>m_size = 2, m_data = [1, 2, 3, 4]\<rparr> 0 2 = Inr 3"
  by (simp add: at_elem_def get_index_def size_t_wrap_def)

text \<open>
  Claim C5, amended. Element access at \<open>(r, c)\<close> fails with \<open>OutOfRange\<close> exactly when the
  offset \<open>r * size + c\<close>, computed in \<^verbatim>\<open>size_t\<close>, is not below the length of the storage, and
  otherwise returns the element stored at that offset. On a well-formed matrix every access
  with \<open>r < size\<close> and \<open>c < size\<close> returns the element at \<open>r * size + c\<close>, and every access
  with \<open>r \<ge> size\<close> whose offset does not wrap fails; an access with \<open>c \<ge> size\<close> fails
  only when its offset is outside the storage.
\<close>

theorem at_out_of_range:
  "at_elem M r c =
     (if size_t_wrap (r * m_size M + c) < length (m_data M)
      then Inr (m_data M ! size_t_wrap (r * m_size M + c)) else Inl OutOfRange)
   \<and> (valid M \<and> r < m_size M \<and> c < m_size M \<longrightarrow>
        at_elem M r c = Inr (m_data M ! (r * m_size M + c)))
   \<and> (valid M \<and> m_size M \<le> r \<and> r * m_size M + c < 2 ^ 64 \<longrightarrow>
        at_elem M r c = Inl OutOfRange)
   \<and> (valid M \<and> m_size M \<le> c \<and> r * m_size M + c < 2 ^ 64 \<longrightarrow>
        (at_elem M r c = Inl OutOfRange \<longleftrightarrow> m_size M * m_size M \<le> r * m_size M + c))"
proof (intro conjI impI)
  show "at_elem M r c =
     (if size_t_wrap (r * m_size M + c) < length (m_data M)
      then Inr (m_data M ! size_t_wrap (r * m_size M + c)) else Inl OutOfRange)"
    by (simp add: at_elem_def get_index_def Let_def)
next
  assume "valid M \<and> r < m_size M \<and> c < m_size M"
  then show "at_elem M r c = Inr (m_data M ! (r * m_size M + c))"
    using at_elem_ok[of M "m_size M" r c] valid_shape[of M] by (simp add: el_def)
next
  assume h: "valid M \<and> m_size M \<le> r \<and> r * m_size M + c < 2 ^ 64"
  then have "m_size M \<le> r" by simp
  then have "m_size M * m_size M \<le> r * m_size M" by (rule mult_le_mono1)
  then have "m_size M * m_size M \<le> r * m_size M + c" by (rule trans_le_add1)
  then have "\<not> r * m_size M + c < length (m_data M)"
    using h valid_shape(1)[of M] by simp
  then show "at_elem M r c = Inl OutOfRange"
    using h by (simp add: at_elem_def get_index_def size_t_wrap_id)
next
  assume h: "valid M \<and> m_size M \<le> c \<and> r * m_size M + c < 2 ^ 64"
  then show "at_elem M r c = Inl OutOfRange \<longleftrightarrow> m_size M * m_size M \<le> r * m_size M + c"
    using valid_shape(1)[of M] by (auto simp: at_elem_def get_index_def size_t_wrap_id Let_def)
qed

theorem at_out_of_range_witness:
  "valid \<lparr>m_size = 2, m_data = [1, 2, 3, 4]\<rparr>
   \<and> (1::nat) < m_size \<lparr>m_size = 2, m_data = [1, 2, 3, 4 :: cint]\<rparr>
   \<and> at_elem \<lparr>m_size = 2, m_data = [1, 2, 3, 4]\<rparr> 1 1 = Inr 4
   \<and> m_size \<lparr>m_size = 2, m_data = [1, 2, 3, 4 :: cint]\<rparr> \<le> 2
   \<and> (2::nat) * m_size \<lparr>m_size = 2, m_data = [1, 2, 3, 4 :: cint]\<rparr> + 0 < 2 ^ 64
   \<and> at_elem \<lparr>m_size = 2, m_data = [1, 2, 3, 4]\<rparr> 2 0 = Inl OutOfRange
   \<and> (1::nat) * m_size \<lparr>m_size = 2, m_data = [1, 2, 3, 4 :: cint]\<rparr> + 2 < 2 ^ 64
   \<and> at_elem \<lparr>m_size = 2, m_data = [1, 2, 3, 4]\<rparr> 1 2 = Inl OutOfRange"
proof -
  let ?M = "\<lparr>m_size = 2, m_data = [1, 2, 3, 4 :: cint]\<rparr>"
  have v: "valid ?M" by (simp add: valid_def is_power_of_2.simps)
  have a: "at_elem ?M 1 1 = Inr 4"
    using at_out_of_range[of ?M 1 1, THEN conjunct2, THEN conjunct1] v by simp
  have b: "at_elem ?M 2 0 = Inl OutOfRange"
    using at_out_of_range[of ?M 2 0, THEN conjunct2, THEN conjunct2, THEN conjunct1] v by simp
  have c: "at_elem ?M 1 2 = Inl OutOfRange"
    using at_out_of_range[of ?M 1 2, THEN conjunct2, THEN conjunct2, THEN conjunct2] v by simp
  from v a b c show ?thesis by simp
qed

section \<open>Elementwise operations and the size check\<close>

text \<open>
  Claim C6. For every pair of well-formed matrices \<open>A\<close> and \<open>B\<close> of the same size,
  \<open>(A + B) - B\<close> is \<open>A\<close>, element by element.
\<close>

theorem add_subtract_inverse:
  assumes "valid A" and "valid B" and "m_size A = m_size B"
  shows "bind_e (operator_plus A B) (\<lambda>S. operator_minus S B) = Inr A"
proof -
  define s where "s = m_size A"
  note a = valid_shape[OF assms(1), folded s_def] and b = valid_shape[OF assms(2)]
  let ?S = "mk s (\<lambda>i j. el A i j + el B i j)"
  have plus: "operator_plus A B = Inr ?S"
    using operator_plus_ok[OF assms] by (simp add: s_def)
  have vS: "valid ?S" using a(3,4) by (rule valid_mk)
  have sS: "m_size ?S = m_size B" using assms(3) by (simp add: s_def)
  have "operator_minus ?S B = Inr (mk s (\<lambda>i j. el ?S i j - el B i j))"
    using operator_minus_ok[OF vS assms(2) sS] by simp
  moreover have "mk s (\<lambda>i j. el ?S i j - el B i j) = mk s (el A)"
    by (rule mk_cong) (simp add: el_mk)
  moreover have "mk s (el A) = A" using s_def[symmetric] a(1) by (rule mk_el)
  ultimately show ?thesis using plus by simp
qed

theorem add_subtract_inverse_witness:
  "valid \<lparr>m_size = 2, m_data = [1, 2, 3, 4]\<rparr> \<and> valid \<lparr>m_size = 2, m_data = [5, 6, 7, 8]\<rparr>
   \<and> m_size \<lparr>m_size = 2, m_data = [1, 2, 3, 4 :: cint]\<rparr>
       = m_size \<lparr>m_size = 2, m_data = [5, 6, 7, 8 :: cint]\<rparr>
   \<and> bind_e (operator_plus \<lparr>m_size = 2, m_data = [1, 2, 3, 4]\<rparr> \<lparr>m_size = 2, m_data = [5, 6, 7, 8]\<rparr>)
         (\<lambda>S. operator_minus S \<lparr>m_size = 2, m_data = [5, 6, 7, 8]\<rparr>)
       = Inr \<lparr>m_size = 2, m_data = [1, 2, 3, 4]\<rparr>"
proof -
  have v: "valid \<lparr>m_size = 2, m_data = [1, 2, 3, 4]\<rparr>" "valid \<lparr>m_size = 2, m_data = [5, 6, 7, 8]\<rparr>"
    by (simp_all add: valid_def is_power_of_2.simps)
  have sz: "m_size \<lparr>m_size = 2, m_data = [1, 2, 3, 4 :: cint]\<rparr>
       = m_size \<lparr>m_size = 2, m_data = [5, 6, 7, 8 :: cint]\<rparr>"
    by simp
  from v sz add_subtract_inverse[OF v sz] show ?thesis by blast
qed

text \<open>
  Claim C7. When the sizes of the operands differ, \<open>+\<close>, \<open>-\<close> and \<open>*\<close> fail with
  \<open>InvalidArgument\<close>, no result object is made and the store, with both operands, is
  unchanged. When the operands are well-formed and their sizes are equal, each of the three
  returns a matrix: no \<open>InvalidArgument\<close> is raised.
\<close>

theorem size_mismatch_invalid_argument:
  "(m_size (st a) \<noteq> m_size (st b) \<longrightarrow>
      operator_plus (st a) (st b) = Inl InvalidArgument
    \<and> operator_minus (st a) (st b) = Inl InvalidArgument
    \<and> operator_times (st a) (st b) = Inl InvalidArgument
    \<and> assign_new dst (operator_plus (st a) (st b)) st = (Some InvalidArgument, st)
    \<and> assign_new dst (operator_minus (st a) (st b)) st = (Some InvalidArgument, st)
    \<and> assign_new dst (operator_times (st a) (st b)) st = (Some InvalidArgument, st))
   \<and> (valid (st a) \<and> valid (st b) \<and> m_size (st a) = m_size (st b) \<longrightarrow>
      (\<exists>R. operator_plus (st a) (st b) = Inr R)
    \<and> (\<exists>R. operator_minus (st a) (st b) = Inr R)
    \<and> (\<exists>R. operator_times (st a) (st b) = Inr R))"
proof (intro conjI impI)
  assume "valid (st a) \<and> valid (st b) \<and> m_size (st a) = m_size (st b)"
  then have h: "valid (st a)" "valid (st b)" "m_size (st a) = m_size (st b)" by simp_all
  show "\<exists>R. operator_plus (st a) (st b) = Inr R" using operator_plus_ok[OF h] by blast
  show "\<exists>R. operator_minus (st a) (st b) = Inr R" using operator_minus_ok[OF h] by blast
  show "\<exists>R. operator_times (st a) (st b) = Inr R"
    using strassen_valid[OF h] h(3) by (simp add: operator_times_def)
qed (simp_all add: operator_plus_def operator_minus_def operator_times_def assign_new_def)

theorem size_mismatch_invalid_argument_witness:
  "m_size ((locals \<lparr>m_size = 2, m_data = [1, 2, 3, 4]\<rparr> \<lparr>m_size = 1, m_data = [5]\<rparr>
        \<lparr>m_size = 1, m_data = [6]\<rparr> \<lparr>m_size = 1, m_data = [7]\<rparr> \<lparr>m_size = 1, m_data = [8]\<rparr>) 0)
     \<noteq> m_size ((locals \<lparr>m_size = 2, m_data = [1, 2, 3, 4]\<rparr> \<lparr>m_size = 1, m_data = [5]\<rparr>
        \<lparr>m_size = 1, m_data = [6]\<rparr> \<lparr>m_size = 1, m_data = [7]\<rparr> \<lparr>m_size = 1, m_data = [8]\<rparr>) 1)
   \<and> operator_times \<lparr>m_size = 2, m_data = [1, 2, 3, 4]\<rparr> \<lparr>m_size = 1, m_data = [5]\<rparr>
       = Inl InvalidArgument
   \<and> assign_new 5 (operator_plus \<lparr>m_size = 2, m_data = [1, 2, 3, 4]\<rparr> \<lparr>m_size = 1, m_data = [5]\<rparr>)
        (locals \<lparr>m_size = 2, m_data = [1, 2, 3, 4]\<rparr> \<lparr>m_size = 1, m_data = [5]\<rparr>
        \<lparr>m_size = 1, m_data = [6]\<rparr> \<lparr>m_size = 1, m_data = [7]\<rparr> \<lparr>m_size = 1, m_data = [8]\<rparr>)
       = (Some InvalidArgument, locals \<lparr>m_size = 2, m_data = [1, 2, 3, 4]\<rparr> \<lparr>m_size = 1, m_data = [5]\<rparr>
        \<lparr>m_size = 1, m_data = [6]\<rparr> \<lparr>m_size = 1, m_data = [7]\<rparr> \<lparr>m_size = 1, m_data = [8]\<rparr>)
   \<and> valid \<lparr>m_size = 1, m_data = [5]\<rparr> \<and> valid \<lparr>m_size = 1, m_data = [6]\<rparr>
   \<and> m_size \<lparr>m_size = 1, m_data = [5 :: cint]\<rparr> = m_size \<lparr>m_size = 1, m_data = [6 :: cint]\<rparr>
   \<and> (\<exists>R. operator_times \<lparr>m_size = 1, m_data = [5]\<rparr> \<lparr>m_size = 1, m_data = [6]\<rparr> = Inr R)"
proof -
  let ?st = "locals \<lparr>m_size = 2, m_data = [1, 2, 3, 4]\<rparr> \<lparr>m_size = 1, m_data = [5]\<rparr>
        \<lparr>m_size = 1, m_data = [6]\<rparr> \<lparr>m_size = 1, m_data = [7]\<rparr> \<lparr>m_size = 1, m_data = [8]\<rparr>"
  have st: "?st 0 = \<lparr>m_size = 2, m_data = [1, 2, 3, 4]\<rparr>" "?st 1 = \<lparr>m_size = 1, m_data = [5]\<rparr>"
    "?st 2 = \<lparr>m_size = 1, m_data = [6]\<rparr>"
    by (simp_all add: locals_def)
  have ne: "m_size (?st 0) \<noteq> m_size (?st 1)" by (simp add: locals_def)
  have v: "valid (?st 1)" "valid (?st 2)" "m_size (?st 1) = m_size (?st 2)"
    by (simp_all add: locals_def valid_def is_power_of_2.simps)
  note m = size_mismatch_invalid_argument[of ?st 0 1 5, THEN conjunct1, rule_format, OF ne]
  note e = size_mismatch_invalid_argument[of ?st 1 2 5, THEN conjunct2, rule_format,
      OF conjI[OF v(1) conjI[OF v(2,3)]]]
  from ne v m e show ?thesis unfolding st by blast
qed

section \<open>Operands are not changed\<close>

lemma combine_frame:
  assumes "combine self R_11 R_12 R_21 R_22 st = (r, st')" and "x \<noteq> self"
  shows "st' x = st x"
proof -
  let ?P = "\<lambda>\<sigma>. \<sigma> x = st x"
  let ?inner = "\<lambda>i j \<sigma>.
          case determine_quad (m_size (st self) div 2) (\<sigma> R_11) (\<sigma> R_12) (\<sigma> R_21) (\<sigma> R_22) i j of
            Inl e \<Rightarrow> (Some e, \<sigma>)
          | Inr v \<Rightarrow>
              (case at_ref_assign (\<sigma> self) i j v of
                 Inl e \<Rightarrow> (Some e, \<sigma>)
               | Inr M \<Rightarrow> (None, \<sigma>(self := M)))"
  have cell: "?P t'" if "?P t" "?inner i j t = (r', t')" for i j t r' t'
    using that assms(2) by (auto split: sum.splits)
  have row: "?P t'" if "?P t" "for_loop (m_size (st self)) (?inner i) t = (r', t')" for i t r' t'
    by (rule for_loop_invariant[where P = ?P, OF that(2,1)]) (rule cell)
  have "for_loop (m_size (st self)) (\<lambda>i. for_loop (m_size (st self)) (?inner i)) st = (r, st')"
    using assms(1) by (simp add: combine_def Let_def)
  then show ?thesis
    by (rule for_loop_invariant[where P = ?P]) (simp, rule row)
qed

text \<open>
  The read operations on the store. First, each of them preserves the objects that are in
  use when it is called: every write goes to an object made by the call itself.
\<close>

lemma preserves_ret: "preserves n (ret x)"
  by (simp add: preserves_def ret_def)

lemma preserves_throw: "preserves n (throw e)"
  by (simp add: preserves_def throw_def)

lemma preserves_bind:
  assumes m: "preserves n m" and f: "\<And>a. preserves n (f a)"
  shows "preserves n (bind_h m f)"
  unfolding preserves_def
proof (intro allI impI)
  fix h :: heap assume n: "n \<le> next_free h"
  obtain out h1 where mh: "m h = (out, h1)" by (cases "m h")
  from m n mh have 1: "next_free h \<le> next_free h1" "\<forall>x<n. objs h1 x = objs h x"
    by (auto simp: preserves_def)
  show "next_free h \<le> next_free (snd (bind_h m f h))
      \<and> (\<forall>x<n. objs (snd (bind_h m f h)) x = objs h x)"
  proof (cases out)
    case (Returns a)
    from f[of a] n 1(1) have "next_free h1 \<le> next_free (snd (f a h1))"
      "\<forall>x<n. objs (snd (f a h1)) x = objs h1 x"
      by (auto simp: preserves_def)
    with 1 mh Returns show ?thesis by (simp add: bind_h_def)
  next
    case (Throws e)
    with 1 mh show ?thesis by (simp add: bind_h_def)
  next
    case OutOfFuel
    with 1 mh show ?thesis by (simp add: bind_h_def)
  qed
qed

lemma preserves_if:
  "(c \<Longrightarrow> preserves n x) \<Longrightarrow> (\<not> c \<Longrightarrow> preserves n y) \<Longrightarrow> preserves n (if c then x else y)"
  by simp

lemma preserves_new:
  assumes "\<And>a. n \<le> a \<Longrightarrow> preserves n (f a)"
  shows "preserves n (bind_h (Matrix_st s) f)"
  unfolding preserves_def
proof (intro allI impI)
  fix h :: heap assume n: "n \<le> next_free h"
  show "next_free h \<le> next_free (snd (bind_h (Matrix_st s) f h))
      \<and> (\<forall>x<n. objs (snd (bind_h (Matrix_st s) f h)) x = objs h x)"
  proof (cases "Matrix_new s")
    case (Inl e)
    then show ?thesis by (simp add: bind_h_def Matrix_st_def)
  next
    case (Inr M)
    let ?h1 = "new_object h M"
    have eq: "bind_h (Matrix_st s) f h = f (next_free h) ?h1"
      by (simp add: bind_h_def Matrix_st_def Inr)
    have h1: "next_free ?h1 = Suc (next_free h)" "\<forall>x<n. objs ?h1 x = objs h x"
      using n by (simp_all add: new_object_def)
    from n h1(1) have "n \<le> next_free ?h1" by simp
    with assms[OF n] have "next_free ?h1 \<le> next_free (snd (f (next_free h) ?h1))"
      "\<forall>x<n. objs (snd (f (next_free h) ?h1)) x = objs ?h1 x"
      by (simp_all add: preserves_def)
    with h1 show ?thesis unfolding eq by simp
  qed
qed

lemma preserves_m_size_st: "preserves n (m_size_st a)"
  by (simp add: preserves_def m_size_st_def)

lemma preserves_m_data_size_st: "preserves n (m_data_size_st a)"
  by (simp add: preserves_def m_data_size_st_def)

lemma preserves_at_st: "preserves n (at_st a r c)"
  by (simp add: preserves_def at_st_def split: sum.splits)

lemma preserves_at_ref_assign_st: "n \<le> a \<Longrightarrow> preserves n (at_ref_assign_st a r c v)"
  by (auto simp: preserves_def at_ref_assign_st_def split: sum.splits)

lemma preserves_call2:
  assumes "preserves n ma" and "preserves n mb" and "\<And>a b. preserves n (f a b)"
  shows "preserves n (call2 f ma mb)"
  unfolding call2_def by (intro preserves_bind assms)

lemma writes_only_for_loop:
  assumes "\<And>i. writes_only t (body i)"
  shows "writes_only t (for_loop k body)"
  unfolding writes_only_def
proof
  fix h :: heap
  obtain r h' where run: "for_loop k body h = (r, h')" by (cases "for_loop k body h")
  let ?P = "\<lambda>h'. next_free h' = next_free h \<and> (\<forall>x. x \<noteq> t \<longrightarrow> objs h' x = objs h x)"
  have "?P h'"
  proof (rule for_loop_invariant[OF run, where P = ?P])
    show "?P h" by simp
  next
    fix i u r' u' assume u: "?P u" and b: "body i u = (r', u')"
    from assms[of i] have "next_free (snd (body i u)) = next_free u
        \<and> (\<forall>x. x \<noteq> t \<longrightarrow> objs (snd (body i u)) x = objs u x)"
      by (simp add: writes_only_def)
    with u b show "?P u'" by simp
  qed
  with run show "next_free (snd (for_loop k body h)) = next_free h
      \<and> (\<forall>x. x \<noteq> t \<longrightarrow> objs (snd (for_loop k body h)) x = objs h x)"
    by simp
qed

lemma preserves_loop_st:
  assumes "n \<le> t" and "\<And>i. writes_only t (body i)"
  shows "preserves n (loop_st k body)"
proof -
  from writes_only_for_loop[of t body k, OF assms(2)]
  have w: "next_free (snd (for_loop k body h)) = next_free h"
    "\<And>x. x \<noteq> t \<Longrightarrow> objs (snd (for_loop k body h)) x = objs h x" for h
    by (simp_all add: writes_only_def)
  have s: "snd (loop_st k body h) = snd (for_loop k body h)" for h
    by (simp add: loop_st_def split: prod.splits option.splits)
  show ?thesis
    unfolding preserves_def s using w assms(1) by auto
qed

lemma preserves_fill:
  assumes "n \<le> t"
  shows "preserves n (loop_st s (\<lambda>i. for_loop s' (\<lambda>j h.
         case at_elem (objs h self) (r i) (c j) of
           Inl e \<Rightarrow> (Some e, h)
         | Inr v \<Rightarrow>
             (case at_ref_assign (objs h t) i j v of
                Inl e \<Rightarrow> (Some e, h)
              | Inr M \<Rightarrow> (None, h\<lparr>objs := (objs h)(t := M)\<rparr>)))))"
  by (rule preserves_loop_st[OF assms], rule writes_only_for_loop)
    (auto simp: writes_only_def split: sum.splits)

lemma preserves_partition_st: "preserves n (partition_st self r c)"
  unfolding partition_st_def Let_def
  by (rule preserves_bind[OF preserves_m_size_st], rule preserves_new,
      rule preserves_bind[OF preserves_fill preserves_ret])

lemma preserves_operator_plus_st: "preserves n (operator_plus_st a b)"
  unfolding operator_plus_st_def
  apply (rule preserves_bind[OF preserves_m_size_st])+
  apply (rule preserves_if[OF preserves_throw])
  apply (rule preserves_bind[OF preserves_m_size_st])
  apply (rule preserves_new)
  apply (rule preserves_bind[OF preserves_m_data_size_st])
  apply (rule preserves_bind[OF preserves_loop_st preserves_ret])
   apply assumption
  apply (simp add: writes_only_def)
  done

lemma preserves_operator_minus_st: "preserves n (operator_minus_st a b)"
  unfolding operator_minus_st_def
  apply (rule preserves_bind[OF preserves_m_size_st])+
  apply (rule preserves_if[OF preserves_throw])
  apply (rule preserves_bind[OF preserves_m_size_st])
  apply (rule preserves_new)
  apply (rule preserves_bind[OF preserves_m_data_size_st])
  apply (rule preserves_bind[OF preserves_loop_st preserves_ret])
   apply assumption
  apply (simp add: writes_only_def)
  done

lemma preserves_combine_st:
  assumes "n \<le> self"
  shows "preserves n (combine_st self R_11 R_12 R_21 R_22)"
  unfolding preserves_def
proof (intro allI impI conjI)
  fix h :: heap
  obtain r st where c: "combine self R_11 R_12 R_21 R_22 (objs h) = (r, st)"
    by (cases "combine self R_11 R_12 R_21 R_22 (objs h)")
  have s: "snd (combine_st self R_11 R_12 R_21 R_22 h) = h\<lparr>objs := st\<rparr>"
    by (simp add: combine_st_def c split: option.splits)
  show "next_free h \<le> next_free (snd (combine_st self R_11 R_12 R_21 R_22 h))"
    by (simp add: s)
  fix x assume "x < n"
  with assms have "x \<noteq> self" by simp
  from combine_frame[OF c this] show "objs (snd (combine_st self R_11 R_12 R_21 R_22 h)) x = objs h x"
    by (simp add: s)
qed

lemma preserves_multiply_st: "preserves m (multiply_st n a b)"
proof (induction n arbitrary: a b)
  case 0
  show ?case by (simp add: preserves_def)
next
  case (Suc n)
  note call = preserves_call2[OF _ _ Suc.IH] preserves_call2[OF _ _ preserves_operator_plus_st]
  show ?case
    unfolding multiply_st.simps Let_def
    apply (rule preserves_bind[OF preserves_m_size_st])
    apply (rule preserves_new)
    apply (rule preserves_bind[OF preserves_m_size_st])
    apply (rule preserves_if)
     apply (intro preserves_bind preserves_at_st preserves_at_ref_assign_st preserves_ret)
     apply assumption
    apply (intro preserves_bind preserves_m_size_st call preserves_partition_st
        preserves_combine_st preserves_ret)
    apply assumption
    done
qed

lemma preserves_strassen_st: "preserves m (strassen_st n a b)"
proof -
  note call = preserves_call2[OF _ _ preserves_multiply_st]
    preserves_call2[OF _ _ preserves_operator_plus_st]
    preserves_call2[OF _ _ preserves_operator_minus_st]
  show ?thesis
    unfolding strassen_st_def Let_def
    apply (rule preserves_bind[OF preserves_m_size_st])
    apply (rule preserves_if[OF preserves_multiply_st])
    apply (rule preserves_bind[OF preserves_m_size_st])
    apply (rule preserves_new)
    apply (intro preserves_bind preserves_m_size_st call preserves_partition_st
        preserves_combine_st preserves_ret)
    apply assumption
    done
qed

text \<open>
  Second, the operations on the store return what the functions on values return. A loop
  that writes one object of the store is the loop over that object.
\<close>

lemma for_each_lift:
  assumes "\<And>i M. body_st i (put M) = (case body i M of (r, M') \<Rightarrow> (r, put M'))"
  shows "for_each xs body_st (put M) = (case for_each xs body M of (r, M') \<Rightarrow> (r, put M'))"
proof (induction xs arbitrary: M)
  case Nil
  show ?case by simp
next
  case (Cons i xs)
  obtain r1 M1 where b: "body i M = (r1, M1)" by (cases "body i M")
  with assms[of i M] have bs: "body_st i (put M) = (r1, put M1)" by simp
  show ?case
  proof (cases r1)
    case None
    with b bs Cons.IH[of M1] show ?thesis by simp
  next
    case (Some e)
    with b bs show ?thesis by simp
  qed
qed

lemma for_loop_lift:
  assumes "\<And>i M. body_st i (put M) = (case body i M of (r, M') \<Rightarrow> (r, put M'))"
  shows "for_loop n body_st (put M) = (case for_loop n body M of (r, M') \<Rightarrow> (r, put M'))"
  unfolding for_loop_def using assms by (rule for_each_lift)

lemma new_object_update [simp]:
  "(new_object h M)\<lparr>objs := (objs (new_object h M))(next_free h := M')\<rparr> = new_object h M'"
  by (simp add: new_object_def)

lemma objs_new_object [simp]:
  "a \<noteq> next_free h \<Longrightarrow> objs (new_object h M) a = objs h a"
  "objs (new_object h M) (next_free h) = M"
  "next_free (new_object h M) = Suc (next_free h)"
  by (simp_all add: new_object_def)

lemma partition_st_eq:
  assumes "self \<noteq> next_free h" and "partition_mx (objs h self) r c = Inr R"
  shows "partition_st self r c h = (Returns (next_free h), new_object h R)"
proof -
  let ?s = "m_size (objs h self) div 2"
  let ?t = "next_free h"
  let ?cell = "\<lambda>i j sub.
            case at_elem (objs h self) (size_t_wrap (i + r)) (size_t_wrap (j + c)) of
              Inl e \<Rightarrow> (Some e, sub)
            | Inr v \<Rightarrow>
                (case at_ref_assign sub i j v of
                   Inl e \<Rightarrow> (Some e, sub)
                 | Inr sub' \<Rightarrow> (None, sub'))"
  let ?cell_st = "\<lambda>i j h'.
         case at_elem (objs h' self) (size_t_wrap (i + r)) (size_t_wrap (j + c)) of
           Inl e \<Rightarrow> (Some e, h')
         | Inr v \<Rightarrow>
             (case at_ref_assign (objs h' ?t) i j v of
                Inl e \<Rightarrow> (Some e, h')
              | Inr M \<Rightarrow> (None, h'\<lparr>objs := (objs h')(?t := M)\<rparr>))"
  from assms(2) obtain M0 where new: "Matrix_new ?s = Inr M0"
    and loop: "for_loop ?s (\<lambda>i. for_loop ?s (?cell i)) M0 = (None, R)"
    by (auto simp: partition_mx_def Let_def bind_e_eq_Inr finish_eq_Inr)
  have cell: "?cell_st i j (new_object h M) = (case ?cell i j M of (r, M') \<Rightarrow> (r, new_object h M'))"
    for i j M
    using assms(1) by (simp split: sum.splits)
  have row: "for_loop ?s (?cell_st i) (new_object h M)
      = (case for_loop ?s (?cell i) M of (r, M') \<Rightarrow> (r, new_object h M'))" for i M
    by (rule for_loop_lift) (rule cell)
  have "for_loop ?s (\<lambda>i. for_loop ?s (?cell_st i)) (new_object h M0)
      = (case for_loop ?s (\<lambda>i. for_loop ?s (?cell i)) M0 of (r, M') \<Rightarrow> (r, new_object h M'))"
    by (rule for_loop_lift) (rule row)
  with loop have "for_loop ?s (\<lambda>i. for_loop ?s (?cell_st i)) (new_object h M0)
      = (None, new_object h R)" by simp
  then show ?thesis
    by (simp add: partition_st_def bind_h_def m_size_st_def Matrix_st_def new loop_st_def ret_def
        Let_def)
qed

lemma operator_st_eq:
  fixes f :: "cint \<Rightarrow> cint \<Rightarrow> cint"
  assumes a: "a \<noteq> next_free h" and b: "b \<noteq> next_free h"
    and new: "Matrix_new (m_size (objs h a)) = Inr M0"
    and loop: "for_loop (length (m_data (objs h a))) (\<lambda>i res.
            (None, res\<lparr>m_data := (m_data res)[i := f (m_data (objs h a) ! i) (m_data (objs h b) ! i)]\<rparr>))
          M0 = (None, R)"
  shows "loop_st (length (m_data (objs h a))) (\<lambda>i h'.
         (None, h'\<lparr>objs := (objs h')(next_free h := (objs h' (next_free h))
            \<lparr>m_data := (m_data (objs h' (next_free h)))
               [i := f (m_data (objs h' a) ! i) (m_data (objs h' b) ! i)]\<rparr>)\<rparr>)) (new_object h M0)
       = (Returns (), new_object h R)"
proof -
  let ?n = "length (m_data (objs h a))"
  let ?body = "\<lambda>i res.
            (None :: error option,
             res\<lparr>m_data := (m_data res)[i := f (m_data (objs h a) ! i) (m_data (objs h b) ! i)]\<rparr>)"
  let ?body_st = "\<lambda>i h'.
         (None :: error option, h'\<lparr>objs := (objs h')(next_free h := (objs h' (next_free h))
            \<lparr>m_data := (m_data (objs h' (next_free h)))
               [i := f (m_data (objs h' a) ! i) (m_data (objs h' b) ! i)]\<rparr>)\<rparr>)"
  have "for_loop ?n ?body_st (new_object h M0)
      = (case for_loop ?n ?body M0 of (r, M') \<Rightarrow> (r, new_object h M'))"
    by (rule for_loop_lift) (use a b in simp)
  with loop show ?thesis by (simp add: loop_st_def)
qed

lemma operator_plus_st_eq:
  assumes "a \<noteq> next_free h" and "b \<noteq> next_free h"
    and "operator_plus (objs h a) (objs h b) = Inr R"
  shows "operator_plus_st a b h = (Returns (next_free h), new_object h R)"
proof -
  from assms(3) have sz: "m_size (objs h a) = m_size (objs h b)"
    by (auto simp: operator_plus_def split: if_splits)
  from assms(3) sz obtain M0 where new: "Matrix_new (m_size (objs h a)) = Inr M0"
    and loop: "for_loop (length (m_data (objs h a))) (\<lambda>i res.
            (None, res\<lparr>m_data := (m_data res)[i := m_data (objs h a) ! i + m_data (objs h b) ! i]\<rparr>))
          M0 = (None, R)"
    by (auto simp: operator_plus_def bind_e_eq_Inr finish_eq_Inr)
  note l = operator_st_eq[where f = "(+)", OF assms(1,2) new loop]
  from assms(1) show ?thesis
    by (simp add: operator_plus_st_def bind_h_def m_size_st_def m_data_size_st_def Matrix_st_def
        sz[symmetric] new l ret_def)
qed

lemma operator_minus_st_eq:
  assumes "a \<noteq> next_free h" and "b \<noteq> next_free h"
    and "operator_minus (objs h a) (objs h b) = Inr R"
  shows "operator_minus_st a b h = (Returns (next_free h), new_object h R)"
proof -
  from assms(3) have sz: "m_size (objs h a) = m_size (objs h b)"
    by (auto simp: operator_minus_def split: if_splits)
  from assms(3) sz obtain M0 where new: "Matrix_new (m_size (objs h a)) = Inr M0"
    and loop: "for_loop (length (m_data (objs h a))) (\<lambda>i res.
            (None, res\<lparr>m_data := (m_data res)[i := m_data (objs h a) ! i - m_data (objs h b) ! i]\<rparr>))
          M0 = (None, R)"
    by (auto simp: operator_minus_def bind_e_eq_Inr finish_eq_Inr)
  note l = operator_st_eq[where f = "(-)", OF assms(1,2) new loop]
  from assms(1) show ?thesis
    by (simp add: operator_minus_st_def bind_h_def m_size_st_def m_data_size_st_def Matrix_st_def
        sz[symmetric] new l ret_def)
qed

lemma combine_lift:
  assumes "self \<notin> {q11, q12, q21, q22}"
  shows "combine self q11 q12 q21 q22 st =
     (case for_loop (m_size (st self)) (\<lambda>i.
        for_loop (m_size (st self)) (\<lambda>j M.
          case determine_quad (m_size (st self) div 2) (st q11) (st q12) (st q21) (st q22) i j of
            Inl e \<Rightarrow> (Some e, M)
          | Inr v \<Rightarrow>
              (case at_ref_assign M i j v of
                 Inl e \<Rightarrow> (Some e, M)
               | Inr M' \<Rightarrow> (None, M')))) (st self)
      of (r, M) \<Rightarrow> (r, st(self := M)))"
proof -
  let ?n = "m_size (st self)"
  let ?put = "\<lambda>M. st(self := M)"
  let ?cell = "\<lambda>i j M.
          case determine_quad (?n div 2) (st q11) (st q12) (st q21) (st q22) i j of
            Inl e \<Rightarrow> (Some e, M)
          | Inr v \<Rightarrow>
              (case at_ref_assign M i j v of
                 Inl e \<Rightarrow> (Some e, M)
               | Inr M' \<Rightarrow> (None, M'))"
  let ?cell_st = "\<lambda>i j \<sigma>.
          case determine_quad (?n div 2) (\<sigma> q11) (\<sigma> q12) (\<sigma> q21) (\<sigma> q22) i j of
            Inl e \<Rightarrow> (Some e, \<sigma>)
          | Inr v \<Rightarrow>
              (case at_ref_assign (\<sigma> self) i j v of
                 Inl e \<Rightarrow> (Some e, \<sigma>)
               | Inr M \<Rightarrow> (None, \<sigma>(self := M)))"
  have cell: "?cell_st i j (?put M) = (case ?cell i j M of (r, M') \<Rightarrow> (r, ?put M'))" for i j M
    using assms by (auto split: sum.splits)
  have row: "for_loop ?n (?cell_st i) (?put M)
      = (case for_loop ?n (?cell i) M of (r, M') \<Rightarrow> (r, ?put M'))" for i M
    by (rule for_loop_lift[where put = ?put]) (rule cell)
  have "for_loop ?n (\<lambda>i. for_loop ?n (?cell_st i)) (?put (st self))
      = (case for_loop ?n (\<lambda>i. for_loop ?n (?cell i)) (st self) of (r, M') \<Rightarrow> (r, ?put M'))"
    by (rule for_loop_lift[where put = ?put]) (rule row)
  then show ?thesis by (simp add: combine_def Let_def)
qed

lemma combine_eq:
  assumes d: "self \<notin> {q11, q12, q21, q22}"
    and c: "combine_locals (st self) (st q11) (st q12) (st q21) (st q22) = Inr R"
  shows "combine self q11 q12 q21 q22 st = (None, st(self := R))"
proof -
  let ?L = "locals (st self) (st q11) (st q12) (st q21) (st q22)"
  have L: "?L 0 = st self" "?L 1 = st q11" "?L 2 = st q12" "?L 3 = st q21" "?L 4 = st q22"
    by (simp_all add: locals_def)
  have "(0::nat) \<notin> {1, 2, 3, 4}" by simp
  note l = combine_lift[OF this, of ?L, unfolded L] combine_lift[OF d, of st]
  from c show ?thesis
    unfolding combine_locals_def l by (auto split: prod.splits option.splits)
qed

lemma ext_refl: "ext h h"
  by (simp add: ext_def)

lemma ext_trans: "ext h h1 \<Longrightarrow> ext h1 h2 \<Longrightarrow> ext h h2"
  by (auto simp: ext_def)

lemma ext_new_object: "ext h (new_object h M)"
  by (simp add: ext_def)

lemma holds_all_ext: "holds_all h \<Gamma> \<Longrightarrow> ext h h' \<Longrightarrow> holds_all h' \<Gamma>"
  by (fastforce simp: holds_all_def ext_def)

lemma holds_all_insert:
  "holds_all h (insert (a, M) \<Gamma>) \<longleftrightarrow> a < next_free h \<and> objs h a = M \<and> holds_all h \<Gamma>"
  by (auto simp: holds_all_def)

lemma holds_allD: "holds_all h \<Gamma> \<Longrightarrow> (a, M) \<in> \<Gamma> \<Longrightarrow> a < next_free h \<and> objs h a = M"
  by (auto simp: holds_all_def)

lemma holds_all_fresh: "holds_all h \<Gamma> \<Longrightarrow> next_free h \<le> c \<Longrightarrow> c \<notin> fst ` \<Gamma>"
  by (auto simp: holds_all_def)

lemma yields_ret: "(a, M) \<in> \<Gamma> \<Longrightarrow> yields \<Gamma> (ret a) M"
  unfolding yields_def by (auto simp: ret_def ext_refl dest: holds_allD)

lemma makes_yields: "makes \<Gamma> m R \<Longrightarrow> yields \<Gamma> m R"
  unfolding makes_def yields_def by blast

lemma makes_call2:
  assumes ma: "yields \<Gamma> ma X" and mb: "yields \<Gamma> mb Y"
    and f: "\<And>a b. makes {(a, X), (b, Y)} (f a b) R"
  shows "makes \<Gamma> (call2 f ma mb) R"
  unfolding makes_def
proof (intro allI impI)
  fix h :: heap assume g: "holds_all h \<Gamma>"
  from ma g obtain a h1 where 1: "ma h = (Returns a, h1)" "ext h h1" "a < next_free h1"
    "objs h1 a = X" unfolding yields_def by blast
  from mb holds_all_ext[OF g 1(2)] obtain b h2 where 2: "mb h1 = (Returns b, h2)" "ext h1 h2"
    "b < next_free h2" "objs h2 b = Y" unfolding yields_def by blast
  from 1(3,4) 2(2) have a2: "a < next_free h2" "objs h2 a = X" by (auto simp: ext_def)
  with 2(3,4) have "holds_all h2 {(a, X), (b, Y)}" by (simp add: holds_all_def)
  with f[of a b] obtain c h3 where 3: "f a b h2 = (Returns c, h3)" "ext h2 h3"
    "next_free h2 \<le> c" "c < next_free h3" "objs h3 c = R" unfolding makes_def by blast
  have run: "call2 f ma mb h = (Returns c, h3)"
    by (simp add: call2_def bind_h_def 1(1) 2(1) 3(1))
  from 1(2) 2(2) 3(2) have e: "ext h h3" by (blast intro: ext_trans)
  from 1(2) 2(2) 3(3) have "next_free h \<le> c" by (simp add: ext_def)
  with run e 3(4,5)
  show "\<exists>c h'. call2 f ma mb h = (Returns c, h') \<and> ext h h' \<and> next_free h \<le> c
      \<and> c < next_free h' \<and> objs h' c = R" by blast
qed

lemma makes_partition_st:
  assumes "(a, A) \<in> \<Gamma>" and "partition_mx A r c = Inr R"
  shows "makes \<Gamma> (partition_st a r c) R"
  unfolding makes_def
proof (intro allI impI)
  fix h :: heap assume g: "holds_all h \<Gamma>"
  from holds_allD[OF g assms(1)] have a: "a \<noteq> next_free h" "objs h a = A" by auto
  from partition_st_eq[OF a(1)] assms(2) a(2)
  have "partition_st a r c h = (Returns (next_free h), new_object h R)" by simp
  then show "\<exists>ca h'. partition_st a r c h = (Returns ca, h') \<and> ext h h' \<and> next_free h \<le> ca
      \<and> ca < next_free h' \<and> objs h' ca = R"
    by (simp add: ext_new_object)
qed

lemma makes_operator_plus_st:
  assumes "operator_plus A B = Inr R"
  shows "makes {(a, A), (b, B)} (operator_plus_st a b) R"
  unfolding makes_def
proof (intro allI impI)
  fix h :: heap assume g: "holds_all h {(a, A), (b, B)}"
  then have a: "a \<noteq> next_free h" "objs h a = A" "b \<noteq> next_free h" "objs h b = B"
    by (auto simp: holds_all_def)
  from operator_plus_st_eq[OF a(1,3)] assms a(2,4)
  have "operator_plus_st a b h = (Returns (next_free h), new_object h R)" by simp
  then show "\<exists>c h'. operator_plus_st a b h = (Returns c, h') \<and> ext h h' \<and> next_free h \<le> c
      \<and> c < next_free h' \<and> objs h' c = R"
    by (simp add: ext_new_object)
qed

lemma makes_operator_minus_st:
  assumes "operator_minus A B = Inr R"
  shows "makes {(a, A), (b, B)} (operator_minus_st a b) R"
  unfolding makes_def
proof (intro allI impI)
  fix h :: heap assume g: "holds_all h {(a, A), (b, B)}"
  then have a: "a \<noteq> next_free h" "objs h a = A" "b \<noteq> next_free h" "objs h b = B"
    by (auto simp: holds_all_def)
  from operator_minus_st_eq[OF a(1,3)] assms a(2,4)
  have "operator_minus_st a b h = (Returns (next_free h), new_object h R)" by simp
  then show "\<exists>c h'. operator_minus_st a b h = (Returns c, h') \<and> ext h h' \<and> next_free h \<le> c
      \<and> c < next_free h' \<and> objs h' c = R"
    by (simp add: ext_new_object)
qed

lemma completes_bind:
  assumes m: "makes \<Gamma> m X"
    and f: "\<And>a. a \<notin> fst ` \<Gamma> \<Longrightarrow> completes n (insert (a, X) \<Gamma>) (f a) S"
  shows "completes n \<Gamma> (bind_h m f) S"
  unfolding completes_def
proof (intro allI impI, elim conjE)
  fix h :: heap assume n: "n \<le> next_free h" and g: "holds_all h \<Gamma>"
  from m g obtain a h1 where 1: "m h = (Returns a, h1)" "ext h h1" "next_free h \<le> a"
    "a < next_free h1" "objs h1 a = X" unfolding makes_def by blast
  from holds_all_fresh[OF g 1(3)] have fr: "a \<notin> fst ` \<Gamma>" .
  from holds_all_ext[OF g 1(2)] 1(4,5) have g1: "holds_all h1 (insert (a, X) \<Gamma>)"
    by (simp add: holds_all_insert)
  from n 1(2) have n1: "n \<le> next_free h1" by (simp add: ext_def)
  from f[OF fr] n1 g1 obtain c h2 where 2: "f a h1 = (Returns c, h2)"
    "next_free h1 \<le> next_free h2" "\<forall>x<n. objs h2 x = objs h1 x" "n \<le> c" "c < next_free h2"
    "objs h2 c = S" unfolding completes_def by blast
  have run: "bind_h m f h = (Returns c, h2)" by (simp add: bind_h_def 1(1) 2(1))
  from 1(2) 2(2) have le: "next_free h \<le> next_free h2" by (simp add: ext_def)
  from 1(2) 2(3) n have "\<forall>x<n. objs h2 x = objs h x" by (auto simp: ext_def)
  with run le 2(4,5,6)
  show "\<exists>c h'. bind_h m f h = (Returns c, h') \<and> next_free h \<le> next_free h'
      \<and> (\<forall>x<n. objs h' x = objs h x) \<and> n \<le> c \<and> c < next_free h' \<and> objs h' c = S" by blast
qed

lemma completes_new:
  assumes new: "Matrix_new s = Inr M0"
    and f: "\<And>a. n \<le> a \<Longrightarrow> a \<notin> fst ` \<Gamma> \<Longrightarrow> completes n (insert (a, M0) \<Gamma>) (f a) S"
  shows "completes n \<Gamma> (bind_h (Matrix_st s) f) S"
  unfolding completes_def
proof (intro allI impI, elim conjE)
  fix h :: heap assume n: "n \<le> next_free h" and g: "holds_all h \<Gamma>"
  let ?a = "next_free h" and ?h1 = "new_object h M0"
  have 1: "Matrix_st s h = (Returns ?a, ?h1)" by (simp add: Matrix_st_def new)
  from holds_all_fresh[OF g] have fr: "?a \<notin> fst ` \<Gamma>" by simp
  from holds_all_ext[OF g ext_new_object] have g1: "holds_all ?h1 (insert (?a, M0) \<Gamma>)"
    by (simp add: holds_all_insert)
  from n have n1: "n \<le> next_free ?h1" by simp
  from f[OF n fr] n1 g1 obtain c h2 where 2: "f ?a ?h1 = (Returns c, h2)"
    "next_free ?h1 \<le> next_free h2" "\<forall>x<n. objs h2 x = objs ?h1 x" "n \<le> c" "c < next_free h2"
    "objs h2 c = S" unfolding completes_def by blast
  have run: "bind_h (Matrix_st s) f h = (Returns c, h2)" by (simp add: bind_h_def 1 2(1))
  from 2(2) have le: "next_free h \<le> next_free h2" by simp
  from 2(3) n have "\<forall>x<n. objs h2 x = objs h x" by auto
  with run le 2(4,5,6)
  show "\<exists>c h'. bind_h (Matrix_st s) f h = (Returns c, h') \<and> next_free h \<le> next_free h'
      \<and> (\<forall>x<n. objs h' x = objs h x) \<and> n \<le> c \<and> c < next_free h' \<and> objs h' c = S" by blast
qed

lemma completes_m_size_st:
  assumes "(a, A) \<in> \<Gamma>" and "completes n \<Gamma> (f (m_size A)) S"
  shows "completes n \<Gamma> (bind_h (m_size_st a) f) S"
  unfolding completes_def
proof (intro allI impI, elim conjE)
  fix h :: heap assume n: "n \<le> next_free h" and g: "holds_all h \<Gamma>"
  from holds_allD[OF g assms(1)] have "bind_h (m_size_st a) f h = f (m_size A) h"
    by (simp add: bind_h_def m_size_st_def)
  with assms(2) n g
  show "\<exists>c h'. bind_h (m_size_st a) f h = (Returns c, h') \<and> next_free h \<le> next_free h'
      \<and> (\<forall>x<n. objs h' x = objs h x) \<and> n \<le> c \<and> c < next_free h' \<and> objs h' c = S"
    unfolding completes_def by simp
qed

lemma completes_combine_st:
  assumes res: "(res, R0) \<in> \<Gamma>" and q: "(q11, Q11) \<in> \<Gamma>" "(q12, Q12) \<in> \<Gamma>" "(q21, Q21) \<in> \<Gamma>"
      "(q22, Q22) \<in> \<Gamma>"
    and d: "res \<notin> {q11, q12, q21, q22}" and n: "n \<le> res"
    and c: "combine_locals R0 Q11 Q12 Q21 Q22 = Inr R"
  shows "completes n \<Gamma> (bind_h (combine_st res q11 q12 q21 q22) (\<lambda>u. ret res)) R"
  unfolding completes_def
proof (intro allI impI, elim conjE)
  fix h :: heap assume g: "holds_all h \<Gamma>"
  note v = holds_allD[OF g res] holds_allD[OF g q(1)] holds_allD[OF g q(2)] holds_allD[OF g q(3)]
    holds_allD[OF g q(4)]
  from combine_eq[OF d, of "objs h" R] c v
  have "combine res q11 q12 q21 q22 (objs h) = (None, (objs h)(res := R))" by simp
  then have run: "bind_h (combine_st res q11 q12 q21 q22) (\<lambda>u. ret res) h
      = (Returns res, h\<lparr>objs := (objs h)(res := R)\<rparr>)"
    by (simp add: bind_h_def combine_st_def ret_def)
  from n v(1)
  show "\<exists>c h'. bind_h (combine_st res q11 q12 q21 q22) (\<lambda>u. ret res) h = (Returns c, h')
      \<and> next_free h \<le> next_free h' \<and> (\<forall>x<n. objs h' x = objs h x) \<and> n \<le> c \<and> c < next_free h'
      \<and> objs h' c = R"
    unfolding run by simp
qed

lemma completes_element:
  assumes res: "(res, R0) \<in> \<Gamma>" and ab: "(a, A) \<in> \<Gamma>" "(b, B) \<in> \<Gamma>" and n: "n \<le> res"
    and x: "at_elem A 0 0 = Inr x" and y: "at_elem B 0 0 = Inr y"
    and w: "at_ref_assign R0 0 0 (x * y) = Inr R"
  shows "completes n \<Gamma>
     (bind_h (at_st a 0 0) (\<lambda>x. bind_h (at_st b 0 0) (\<lambda>y.
        bind_h (at_ref_assign_st res 0 0 (x * y)) (\<lambda>u. ret res)))) R"
  unfolding completes_def
proof (intro allI impI, elim conjE)
  fix h :: heap assume g: "holds_all h \<Gamma>"
  note v = holds_allD[OF g res] holds_allD[OF g ab(1)] holds_allD[OF g ab(2)]
  from v x y w have run: "bind_h (at_st a 0 0) (\<lambda>x. bind_h (at_st b 0 0) (\<lambda>y.
        bind_h (at_ref_assign_st res 0 0 (x * y)) (\<lambda>u. ret res))) h
      = (Returns res, h\<lparr>objs := (objs h)(res := R)\<rparr>)"
    by (simp add: bind_h_def at_st_def at_ref_assign_st_def ret_def)
  from n v(1)
  show "\<exists>c h'. bind_h (at_st a 0 0) (\<lambda>x. bind_h (at_st b 0 0) (\<lambda>y.
        bind_h (at_ref_assign_st res 0 0 (x * y)) (\<lambda>u. ret res))) h = (Returns c, h')
      \<and> next_free h \<le> next_free h' \<and> (\<forall>x<n. objs h' x = objs h x) \<and> n \<le> c \<and> c < next_free h'
      \<and> objs h' c = R"
    unfolding run by simp
qed

lemma makes_completes:
  assumes "\<And>n. completes n \<Gamma> m R"
  shows "makes \<Gamma> m R"
  unfolding makes_def
proof (intro allI impI)
  fix h :: heap assume g: "holds_all h \<Gamma>"
  from assms[of "next_free h"] g
  show "\<exists>c h'. m h = (Returns c, h') \<and> ext h h' \<and> next_free h \<le> c \<and> c < next_free h'
      \<and> objs h' c = R"
    unfolding completes_def ext_def by simp
qed

lemma completes_makes:
  assumes "makes \<Gamma> m R"
  shows "completes n \<Gamma> m R"
  unfolding completes_def
proof (intro allI impI, elim conjE)
  fix h :: heap assume n: "n \<le> next_free h" and g: "holds_all h \<Gamma>"
  from assms g obtain c h' where "m h = (Returns c, h')" "ext h h'" "next_free h \<le> c"
    "c < next_free h'" "objs h' c = R" unfolding makes_def by blast
  with n show "\<exists>c h'. m h = (Returns c, h') \<and> next_free h \<le> next_free h'
      \<and> (\<forall>x<n. objs h' x = objs h x) \<and> n \<le> c \<and> c < next_free h' \<and> objs h' c = R"
    by (auto simp: ext_def)
qed

lemma yields_partition_st:
  "partition_mx A r c = Inr R \<Longrightarrow> (a, A) \<in> \<Gamma> \<Longrightarrow> yields \<Gamma> (partition_st a r c) R"
  by (rule makes_yields, rule makes_partition_st)

lemma makes_plus:
  "operator_plus X Y = Inr R \<Longrightarrow> yields \<Gamma> ma X \<Longrightarrow> yields \<Gamma> mb Y
    \<Longrightarrow> makes \<Gamma> (call2 operator_plus_st ma mb) R"
  by (rule makes_call2[OF _ _ makes_operator_plus_st])

lemma makes_minus:
  "operator_minus X Y = Inr R \<Longrightarrow> yields \<Gamma> ma X \<Longrightarrow> yields \<Gamma> mb Y
    \<Longrightarrow> makes \<Gamma> (call2 operator_minus_st ma mb) R"
  by (rule makes_call2[OF _ _ makes_operator_minus_st])

lemma multiply_st_makes:
  "multiply A B = Inr R \<Longrightarrow> m_size A \<le> n \<Longrightarrow> makes {(a, A), (b, B)} (multiply_st n a b) R"
proof (induction n arbitrary: A B R a b)
  case 0
  from 0(1) obtain M0 where "Matrix_new (m_size A) = Inr M0"
    by (auto simp: multiply.simps[of A B] bind_e_eq_Inr)
  from Matrix_new_size(2)[OF this] 0(2) show ?case by simp
next
  case (Suc n)
  let ?k = "m_size A div 2"
  from Suc.prems(1) obtain M0 where new: "Matrix_new (m_size A) = Inr M0"
    and rest: "(if m_size A = 1 then
         bind_e (at_elem A 0 0) (\<lambda>a.
         bind_e (at_elem B 0 0) (\<lambda>b.
         at_ref_assign M0 0 0 (a * b)))
       else
         bind_e (partition_mx A 0 0) (\<lambda>A1.
         bind_e (partition_mx B 0 0) (\<lambda>B1.
         bind_e (multiply A1 B1) (\<lambda>P1.
         bind_e (partition_mx A 0 ?k) (\<lambda>A2.
         bind_e (partition_mx B ?k 0) (\<lambda>B2.
         bind_e (multiply A2 B2) (\<lambda>P2.
         bind_e (operator_plus P1 P2) (\<lambda>R_11.
         bind_e (partition_mx A 0 0) (\<lambda>A3.
         bind_e (partition_mx B 0 ?k) (\<lambda>B3.
         bind_e (multiply A3 B3) (\<lambda>P3.
         bind_e (partition_mx A 0 ?k) (\<lambda>A4.
         bind_e (partition_mx B ?k ?k) (\<lambda>B4.
         bind_e (multiply A4 B4) (\<lambda>P4.
         bind_e (operator_plus P3 P4) (\<lambda>R_12.
         bind_e (partition_mx A ?k 0) (\<lambda>A5.
         bind_e (partition_mx B 0 0) (\<lambda>B5.
         bind_e (multiply A5 B5) (\<lambda>P5.
         bind_e (partition_mx A ?k ?k) (\<lambda>A6.
         bind_e (partition_mx B ?k 0) (\<lambda>B6.
         bind_e (multiply A6 B6) (\<lambda>P6.
         bind_e (operator_plus P5 P6) (\<lambda>R_21.
         bind_e (partition_mx A ?k 0) (\<lambda>A7.
         bind_e (partition_mx B 0 ?k) (\<lambda>B7.
         bind_e (multiply A7 B7) (\<lambda>P7.
         bind_e (partition_mx A ?k ?k) (\<lambda>A8.
         bind_e (partition_mx B ?k ?k) (\<lambda>B8.
         bind_e (multiply A8 B8) (\<lambda>P8.
         bind_e (operator_plus P7 P8) (\<lambda>R_22.
         combine_locals M0 R_11 R_12 R_21 R_22))))))))))))))))))))))))))))) = Inr R"
    unfolding multiply.simps[of A B] bind_e_eq_Inr[of "Matrix_new (m_size A)"] Let_def by blast
  have prod: "yields \<Gamma> (call2 (multiply_st n) (partition_st a r c) (partition_st b r' c')) P"
    if "partition_mx A r c = Inr X" "partition_mx B r' c' = Inr Y" "multiply X Y = Inr P"
      "(a, A) \<in> \<Gamma>" "(b, B) \<in> \<Gamma>" for \<Gamma> r c r' c' X Y P
  proof -
    from partition_mx_smaller[OF that(1)] Suc.prems(2) have "m_size X \<le> n" by simp
    from Suc.IH[OF that(3) this] have ih: "makes {(x, X), (y, Y)} (multiply_st n x y) P" for x y .
    show ?thesis
      by (rule makes_yields, rule makes_call2[OF yields_partition_st[OF that(1,4)]
            yields_partition_st[OF that(2,5)] ih])
  qed
  have row: "makes \<Gamma> (call2 operator_plus_st
       (call2 (multiply_st n) (partition_st a r1 c1) (partition_st b r2 c2))
       (call2 (multiply_st n) (partition_st a r3 c3) (partition_st b r4 c4))) S"
    if "partition_mx A r1 c1 = Inr X" "partition_mx B r2 c2 = Inr Y" "multiply X Y = Inr P"
      "partition_mx A r3 c3 = Inr X'" "partition_mx B r4 c4 = Inr Y'" "multiply X' Y' = Inr P'"
      "operator_plus P P' = Inr S" "(a, A) \<in> \<Gamma>" "(b, B) \<in> \<Gamma>"
    for \<Gamma> r1 c1 r2 c2 r3 c3 r4 c4 X Y P X' Y' P' S
    by (rule makes_plus[OF that(7) prod[OF that(1,2,3,8,9)] prod[OF that(4,5,6,8,9)]])
  show ?case
  proof (rule makes_completes)
    fix m
    show "completes m {(a, A), (b, B)} (multiply_st (Suc n) a b) R"
    proof (cases "m_size A = 1")
      case True
      with rest obtain x y where x: "at_elem A 0 0 = Inr x" and y: "at_elem B 0 0 = Inr y"
        and w: "at_ref_assign M0 0 0 (x * y) = Inr R"
        by (auto simp: bind_e_eq_Inr)
      show ?thesis
        unfolding multiply_st.simps
        apply (rule completes_m_size_st[where A = A], simp)
        apply (rule completes_new[OF new])
        apply (rule completes_m_size_st[where A = A], simp)
        apply (subst if_P[OF True])
        apply (rule completes_element[OF _ _ _ _ x y w])
           apply simp_all
        done
    next
      case False
      from rest False obtain A1 B1 P1 A2 B2 P2 R_11 A3 B3 P3 A4 B4 P4 R_12
        A5 B5 P5 A6 B6 P6 R_21 A7 B7 P7 A8 B8 P8 R_22 where
        e: "partition_mx A 0 0 = Inr A1" "partition_mx B 0 0 = Inr B1" "multiply A1 B1 = Inr P1"
           "partition_mx A 0 ?k = Inr A2" "partition_mx B ?k 0 = Inr B2" "multiply A2 B2 = Inr P2"
           "operator_plus P1 P2 = Inr R_11"
        and f: "partition_mx A 0 0 = Inr A3" "partition_mx B 0 ?k = Inr B3" "multiply A3 B3 = Inr P3"
           "partition_mx A 0 ?k = Inr A4" "partition_mx B ?k ?k = Inr B4" "multiply A4 B4 = Inr P4"
           "operator_plus P3 P4 = Inr R_12"
        and g: "partition_mx A ?k 0 = Inr A5" "partition_mx B 0 0 = Inr B5" "multiply A5 B5 = Inr P5"
           "partition_mx A ?k ?k = Inr A6" "partition_mx B ?k 0 = Inr B6" "multiply A6 B6 = Inr P6"
           "operator_plus P5 P6 = Inr R_21"
        and h: "partition_mx A ?k 0 = Inr A7" "partition_mx B 0 ?k = Inr B7" "multiply A7 B7 = Inr P7"
           "partition_mx A ?k ?k = Inr A8" "partition_mx B ?k ?k = Inr B8" "multiply A8 B8 = Inr P8"
           "operator_plus P7 P8 = Inr R_22"
        and c: "combine_locals M0 R_11 R_12 R_21 R_22 = Inr R"
        unfolding bind_e_eq_Inr if_not_P[OF False] by (elim exE conjE) (rule that; assumption)
      show ?thesis
        unfolding multiply_st.simps
        apply (rule completes_m_size_st[where A = A], simp)
        apply (rule completes_new[OF new])
        apply (rule completes_m_size_st[where A = A], simp)
        apply (subst if_not_P[OF False])
        apply (rule completes_m_size_st[where A = A], simp)
        apply (simp only: Let_def)
        apply (rule completes_bind[OF row[OF e]], simp, simp)
        apply (rule completes_bind[OF row[OF f]], simp, simp)
        apply (rule completes_bind[OF row[OF g]], simp, simp)
        apply (rule completes_bind[OF row[OF h]], simp, simp)
        apply (rule completes_combine_st[OF _ _ _ _ _ _ _ c])
              apply auto
        done
    qed
  qed
qed

lemma elementwise_size:
  assumes "Matrix_new (m_size A) = Inr M0"
    and "for_loop n (\<lambda>i res. (None, res\<lparr>m_data := (m_data res)[i := g i]\<rparr>)) M0 = (None, R)"
  shows "m_size R = m_size A"
  by (rule for_loop_invariant[OF assms(2), where P = "\<lambda>t. m_size t = m_size A"])
    (use Matrix_new_size(1)[OF assms(1)] in auto)

lemma operator_plus_size: "operator_plus A B = Inr R \<Longrightarrow> m_size R = m_size A"
  by (auto simp: operator_plus_def bind_e_eq_Inr finish_eq_Inr split: if_splits
      dest: elementwise_size)

lemma operator_minus_size: "operator_minus A B = Inr R \<Longrightarrow> m_size R = m_size A"
  by (auto simp: operator_minus_def bind_e_eq_Inr finish_eq_Inr split: if_splits
      dest: elementwise_size)

lemma half_fuel: "partition_mx A r c = Inr X \<Longrightarrow> m_size A \<le> n \<Longrightarrow> m_size X \<le> n"
  using partition_mx_smaller[of A r c X] by simp

lemma strassen_st_makes:
  assumes s: "strassen A B = Inr R" and fuel: "m_size A \<le> n"
  shows "makes {(a, A), (b, B)} (strassen_st n a b) R"
proof (cases "m_size A = 1")
  case True
  with s have "multiply A B = Inr R" by (simp add: strassen_def)
  note m = completes_makes[OF multiply_st_makes[OF this fuel, of a b]]
  show ?thesis
    unfolding strassen_st_def
    apply (rule makes_completes)
    apply (rule completes_m_size_st[where A = A], simp)
    apply (subst if_P[OF True])
    apply (rule m)
    done
next
  case False
  let ?k = "m_size A div 2"
  note pa = yields_partition_st[where a = a and A = A]
  note pb = yields_partition_st[where a = b and A = B]
  have p1: "makes \<Gamma> (call2 (multiply_st n) (partition_st a 0 0)
       (call2 operator_minus_st (partition_st b 0 ?k) (partition_st b ?k ?k))) P"
    if "strassen_P1 A B ?k = Inr P" "(a, A) \<in> \<Gamma>" "(b, B) \<in> \<Gamma>" for \<Gamma> P
  proof -
    from that(1) obtain X Y1 Y2 Y where e: "partition_mx A 0 0 = Inr X"
      "partition_mx B 0 ?k = Inr Y1" "partition_mx B ?k ?k = Inr Y2"
      "operator_minus Y1 Y2 = Inr Y" "multiply X Y = Inr P"
      by (auto simp: strassen_P1_def bind_e_eq_Inr)
    from half_fuel[OF e(1) fuel] have "m_size X \<le> n" .
    from multiply_st_makes[OF e(5) this] show ?thesis
      by (rule makes_call2[OF pa[OF e(1) that(2)]
            makes_yields[OF makes_minus[OF e(4) pb[OF e(2) that(3)] pb[OF e(3) that(3)]]]])
  qed
  have p2: "makes \<Gamma> (call2 (multiply_st n)
       (call2 operator_plus_st (partition_st a 0 0) (partition_st a 0 ?k))
       (partition_st b ?k ?k)) P"
    if "strassen_P2 A B ?k = Inr P" "(a, A) \<in> \<Gamma>" "(b, B) \<in> \<Gamma>" for \<Gamma> P
  proof -
    from that(1) obtain X1 X2 X Y where e: "partition_mx A 0 0 = Inr X1"
      "partition_mx A 0 ?k = Inr X2" "operator_plus X1 X2 = Inr X"
      "partition_mx B ?k ?k = Inr Y" "multiply X Y = Inr P"
      by (auto simp: strassen_P2_def bind_e_eq_Inr)
    from half_fuel[OF e(1) fuel] operator_plus_size[OF e(3)] have "m_size X \<le> n" by simp
    from multiply_st_makes[OF e(5) this] show ?thesis
      by (rule makes_call2[OF
            makes_yields[OF makes_plus[OF e(3) pa[OF e(1) that(2)] pa[OF e(2) that(2)]]]
            pb[OF e(4) that(3)]])
  qed
  have p3: "makes \<Gamma> (call2 (multiply_st n)
       (call2 operator_plus_st (partition_st a ?k 0) (partition_st a ?k ?k))
       (partition_st b 0 0)) P"
    if "strassen_P3 A B ?k = Inr P" "(a, A) \<in> \<Gamma>" "(b, B) \<in> \<Gamma>" for \<Gamma> P
  proof -
    from that(1) obtain X1 X2 X Y where e: "partition_mx A ?k 0 = Inr X1"
      "partition_mx A ?k ?k = Inr X2" "operator_plus X1 X2 = Inr X"
      "partition_mx B 0 0 = Inr Y" "multiply X Y = Inr P"
      by (auto simp: strassen_P3_def bind_e_eq_Inr)
    from half_fuel[OF e(1) fuel] operator_plus_size[OF e(3)] have "m_size X \<le> n" by simp
    from multiply_st_makes[OF e(5) this] show ?thesis
      by (rule makes_call2[OF
            makes_yields[OF makes_plus[OF e(3) pa[OF e(1) that(2)] pa[OF e(2) that(2)]]]
            pb[OF e(4) that(3)]])
  qed
  have p4: "makes \<Gamma> (call2 (multiply_st n) (partition_st a ?k ?k)
       (call2 operator_minus_st (partition_st b ?k 0) (partition_st b 0 0))) P"
    if "strassen_P4 A B ?k = Inr P" "(a, A) \<in> \<Gamma>" "(b, B) \<in> \<Gamma>" for \<Gamma> P
  proof -
    from that(1) obtain X Y1 Y2 Y where e: "partition_mx A ?k ?k = Inr X"
      "partition_mx B ?k 0 = Inr Y1" "partition_mx B 0 0 = Inr Y2"
      "operator_minus Y1 Y2 = Inr Y" "multiply X Y = Inr P"
      by (auto simp: strassen_P4_def bind_e_eq_Inr)
    from half_fuel[OF e(1) fuel] have "m_size X \<le> n" .
    from multiply_st_makes[OF e(5) this] show ?thesis
      by (rule makes_call2[OF pa[OF e(1) that(2)]
            makes_yields[OF makes_minus[OF e(4) pb[OF e(2) that(3)] pb[OF e(3) that(3)]]]])
  qed
  have p5: "makes \<Gamma> (call2 (multiply_st n)
       (call2 operator_plus_st (partition_st a 0 0) (partition_st a ?k ?k))
       (call2 operator_plus_st (partition_st b 0 0) (partition_st b ?k ?k))) P"
    if "strassen_P5 A B ?k = Inr P" "(a, A) \<in> \<Gamma>" "(b, B) \<in> \<Gamma>" for \<Gamma> P
  proof -
    from that(1) obtain X1 X2 X Y1 Y2 Y where e: "partition_mx A 0 0 = Inr X1"
      "partition_mx A ?k ?k = Inr X2" "operator_plus X1 X2 = Inr X"
      "partition_mx B 0 0 = Inr Y1" "partition_mx B ?k ?k = Inr Y2"
      "operator_plus Y1 Y2 = Inr Y" "multiply X Y = Inr P"
      by (auto simp: strassen_P5_def bind_e_eq_Inr)
    from half_fuel[OF e(1) fuel] operator_plus_size[OF e(3)] have "m_size X \<le> n" by simp
    from multiply_st_makes[OF e(7) this] show ?thesis
      by (rule makes_call2[OF
            makes_yields[OF makes_plus[OF e(3) pa[OF e(1) that(2)] pa[OF e(2) that(2)]]]
            makes_yields[OF makes_plus[OF e(6) pb[OF e(4) that(3)] pb[OF e(5) that(3)]]]])
  qed
  have p6: "makes \<Gamma> (call2 (multiply_st n)
       (call2 operator_minus_st (partition_st a 0 ?k) (partition_st a ?k ?k))
       (call2 operator_plus_st (partition_st b ?k 0) (partition_st b ?k ?k))) P"
    if "strassen_P6 A B ?k = Inr P" "(a, A) \<in> \<Gamma>" "(b, B) \<in> \<Gamma>" for \<Gamma> P
  proof -
    from that(1) obtain X1 X2 X Y1 Y2 Y where e: "partition_mx A 0 ?k = Inr X1"
      "partition_mx A ?k ?k = Inr X2" "operator_minus X1 X2 = Inr X"
      "partition_mx B ?k 0 = Inr Y1" "partition_mx B ?k ?k = Inr Y2"
      "operator_plus Y1 Y2 = Inr Y" "multiply X Y = Inr P"
      by (auto simp: strassen_P6_def bind_e_eq_Inr)
    from half_fuel[OF e(1) fuel] operator_minus_size[OF e(3)] have "m_size X \<le> n" by simp
    from multiply_st_makes[OF e(7) this] show ?thesis
      by (rule makes_call2[OF
            makes_yields[OF makes_minus[OF e(3) pa[OF e(1) that(2)] pa[OF e(2) that(2)]]]
            makes_yields[OF makes_plus[OF e(6) pb[OF e(4) that(3)] pb[OF e(5) that(3)]]]])
  qed
  have p7: "makes \<Gamma> (call2 (multiply_st n)
       (call2 operator_minus_st (partition_st a 0 0) (partition_st a ?k 0))
       (call2 operator_plus_st (partition_st b 0 0) (partition_st b 0 ?k))) P"
    if "strassen_P7 A B ?k = Inr P" "(a, A) \<in> \<Gamma>" "(b, B) \<in> \<Gamma>" for \<Gamma> P
  proof -
    from that(1) obtain X1 X2 X Y1 Y2 Y where e: "partition_mx A 0 0 = Inr X1"
      "partition_mx A ?k 0 = Inr X2" "operator_minus X1 X2 = Inr X"
      "partition_mx B 0 0 = Inr Y1" "partition_mx B 0 ?k = Inr Y2"
      "operator_plus Y1 Y2 = Inr Y" "multiply X Y = Inr P"
      by (auto simp: strassen_P7_def bind_e_eq_Inr)
    from half_fuel[OF e(1) fuel] operator_minus_size[OF e(3)] have "m_size X \<le> n" by simp
    from multiply_st_makes[OF e(7) this] show ?thesis
      by (rule makes_call2[OF
            makes_yields[OF makes_minus[OF e(3) pa[OF e(1) that(2)] pa[OF e(2) that(2)]]]
            makes_yields[OF makes_plus[OF e(6) pb[OF e(4) that(3)] pb[OF e(5) that(3)]]]])
  qed
  from s False obtain M0 P1 P2 P3 P4 P5 P6 P7 S1 S2 R_11 R_12 R_21 S3 S4 R_22 where
    new: "Matrix_new (m_size A) = Inr M0"
    and e: "strassen_P1 A B ?k = Inr P1" "strassen_P2 A B ?k = Inr P2"
      "strassen_P3 A B ?k = Inr P3" "strassen_P4 A B ?k = Inr P4" "strassen_P5 A B ?k = Inr P5"
      "strassen_P6 A B ?k = Inr P6" "strassen_P7 A B ?k = Inr P7"
    and r11: "operator_plus P5 P4 = Inr S1" "operator_minus S1 P2 = Inr S2"
      "operator_plus S2 P6 = Inr R_11"
    and r12: "operator_plus P1 P2 = Inr R_12"
    and r21: "operator_plus P3 P4 = Inr R_21"
    and r22: "operator_plus P5 P1 = Inr S3" "operator_minus S3 P3 = Inr S4"
      "operator_minus S4 P7 = Inr R_22"
    and c: "combine_locals M0 R_11 R_12 R_21 R_22 = Inr R"
    unfolding strassen_def if_not_P[OF False] bind_e_eq_Inr Let_def
    by (elim exE conjE) (rule that; assumption)
  note row11 = makes_plus[OF r11(3) makes_yields[OF makes_minus[OF r11(2)
        makes_yields[OF makes_plus[OF r11(1) yields_ret yields_ret]] yields_ret]] yields_ret]
  note row12 = makes_plus[OF r12 yields_ret yields_ret]
  note row21 = makes_plus[OF r21 yields_ret yields_ret]
  note row22 = makes_minus[OF r22(3) makes_yields[OF makes_minus[OF r22(2)
        makes_yields[OF makes_plus[OF r22(1) yields_ret yields_ret]] yields_ret]] yields_ret]
  show ?thesis
    unfolding strassen_st_def
    apply (rule makes_completes)
    apply (rule completes_m_size_st[where A = A], simp)
    apply (subst if_not_P[OF False])
    apply (rule completes_m_size_st[where A = A], simp)
    apply (rule completes_new[OF new])
    apply (rule completes_m_size_st[where A = A], simp)
    apply (simp only: Let_def)
    apply (rule completes_bind[OF p1[OF e(1)]], simp, simp)
    apply (rule completes_bind[OF p2[OF e(2)]], simp, simp)
    apply (rule completes_bind[OF p3[OF e(3)]], simp, simp)
    apply (rule completes_bind[OF p4[OF e(4)]], simp, simp)
    apply (rule completes_bind[OF p5[OF e(5)]], simp, simp)
    apply (rule completes_bind[OF p6[OF e(6)]], simp, simp)
    apply (rule completes_bind[OF p7[OF e(7)]], simp, simp)
    apply (rule completes_bind[OF row11], simp, simp, simp, simp)
    apply (rule completes_bind[OF row12], simp, simp)
    apply (rule completes_bind[OF row21], simp, simp)
    apply (rule completes_bind[OF row22], simp, simp, simp, simp)
    apply (rule completes_combine_st[OF _ _ _ _ _ _ _ c])
          apply auto
    done
qed

lemma preservesD:
  "preserves (next_free h) m \<Longrightarrow> x < next_free h \<Longrightarrow> objs (snd (m h)) x = objs h x"
  by (simp add: preserves_def)

lemma makes_new_result:
  assumes "makes \<Gamma> m R" and "holds_all h \<Gamma>"
  shows "new_result h (m h) R"
  using assms unfolding makes_def new_result_def by fastforce

lemma heap_of_two [simp]:
  "next_free (heap_of [A, B]) = 2" "objs (heap_of [A, B]) 0 = A"
  "objs (heap_of [A, B]) (Suc 0) = B"
  by (simp_all add: heap_of_def)

lemma products_2x2:
  "multiply \<lparr>m_size = 2, m_data = [1, 2, 3, 4]\<rparr> \<lparr>m_size = 2, m_data = [5, 6, 7, 8]\<rparr>
     = Inr \<lparr>m_size = 2, m_data = [19, 22, 43, 50]\<rparr>"
  "strassen \<lparr>m_size = 2, m_data = [1, 2, 3, 4]\<rparr> \<lparr>m_size = 2, m_data = [5, 6, 7, 8]\<rparr>
     = Inr \<lparr>m_size = 2, m_data = [19, 22, 43, 50]\<rparr>"
proof -
  let ?A = "\<lparr>m_size = 2, m_data = [1, 2, 3, 4 :: cint]\<rparr>"
  let ?B = "\<lparr>m_size = 2, m_data = [5, 6, 7, 8 :: cint]\<rparr>"
  have sz: "m_size ?A = m_size ?B" by simp
  have r: "mk (m_size ?A) (mprod (m_size ?A) (el ?A) (el ?B))
      = \<lparr>m_size = 2, m_data = [19, 22, 43, 50]\<rparr>"
    using reference_product_mk[of ?B ?A] reference_2x2 by simp
  show "multiply ?A ?B = Inr \<lparr>m_size = 2, m_data = [19, 22, 43, 50]\<rparr>"
    using multiply_valid[OF valid_2x2 valid_2x2 sz] unfolding r .
  show "strassen ?A ?B = Inr \<lparr>m_size = 2, m_data = [19, 22, 43, 50]\<rparr>"
    using strassen_valid[OF valid_2x2 valid_2x2 sz] unfolding r .
qed

lemma elementwise_2x2:
  "partition_mx \<lparr>m_size = 2, m_data = [1, 2, 3, 4]\<rparr> 0 1 = Inr \<lparr>m_size = 1, m_data = [2]\<rparr>"
  "operator_plus \<lparr>m_size = 2, m_data = [1, 2, 3, 4]\<rparr> \<lparr>m_size = 2, m_data = [5, 6, 7, 8]\<rparr>
     = Inr \<lparr>m_size = 2, m_data = [6, 8, 10, 12]\<rparr>"
  "operator_minus \<lparr>m_size = 2, m_data = [1, 2, 3, 4]\<rparr> \<lparr>m_size = 2, m_data = [5, 6, 7, 8]\<rparr>
     = Inr \<lparr>m_size = 2, m_data = [- 4, - 4, - 4, - 4]\<rparr>"
proof -
  let ?A = "\<lparr>m_size = 2, m_data = [1, 2, 3, 4 :: cint]\<rparr>"
  let ?B = "\<lparr>m_size = 2, m_data = [5, 6, 7, 8 :: cint]\<rparr>"
  have u: "[0..<4] = [0, 1, 2, 3]" by (simp add: upt_rec)
  have sz: "m_size ?A = m_size ?B" by simp
  show "partition_mx ?A 0 1 = Inr \<lparr>m_size = 1, m_data = [2]\<rparr>"
    using partition_mx_ok[OF valid_2x2, of 1 2 3 4 0 1] by (simp add: mk_def el_def)
  show "operator_plus ?A ?B = Inr \<lparr>m_size = 2, m_data = [6, 8, 10, 12]\<rparr>"
    using operator_plus_ok[OF valid_2x2 valid_2x2 sz] by (simp add: mk_def el_def u)
  show "operator_minus ?A ?B = Inr \<lparr>m_size = 2, m_data = [- 4, - 4, - 4, - 4]\<rparr>"
    using operator_minus_ok[OF valid_2x2 valid_2x2 sz] by (simp add: mk_def el_def u)
qed

text \<open>
  Claim C9. The operations \<open>partition\<close>, \<open>+\<close>, \<open>-\<close>, \<open>multiply\<close> and \<open>strassen\<close>, run on
  a store with any receiver \<open>a\<close> and argument \<open>b\<close>, leave every object \<open>x\<close> that was in use
  before the call, the operands among them, holding what it held before, whether the call
  returns, throws or runs out of fuel. When the operands are objects in use and the function
  on values returns a matrix, the call returns a new object holding that matrix (for
  \<open>multiply\<close> and \<open>strassen\<close>, given fuel for the size of the receiver). \<open>combine\<close> is the
  operation that writes: it changes no object but its receiver, whether it returns or throws;
  the four quadrants, half the size of the receiver, are objects other than the receiver and
  are unchanged.
\<close>

theorem operands_unchanged:
  "(x < next_free h \<longrightarrow>
       objs (snd (partition_st a row_start col_start h)) x = objs h x
     \<and> objs (snd (operator_plus_st a b h)) x = objs h x
     \<and> objs (snd (operator_minus_st a b h)) x = objs h x
     \<and> objs (snd (multiply_st n a b h)) x = objs h x
     \<and> objs (snd (strassen_st n a b h)) x = objs h x)
   \<and> (a < next_free h \<and> b < next_free h \<longrightarrow>
       (partition_mx (objs h a) row_start col_start = Inr Q
          \<longrightarrow> new_result h (partition_st a row_start col_start h) Q)
     \<and> (operator_plus (objs h a) (objs h b) = Inr S
          \<longrightarrow> new_result h (operator_plus_st a b h) S)
     \<and> (operator_minus (objs h a) (objs h b) = Inr D
          \<longrightarrow> new_result h (operator_minus_st a b h) D)
     \<and> (multiply (objs h a) (objs h b) = Inr P \<and> m_size (objs h a) \<le> n
          \<longrightarrow> new_result h (multiply_st n a b h) P)
     \<and> (strassen (objs h a) (objs h b) = Inr P' \<and> m_size (objs h a) \<le> n
          \<longrightarrow> new_result h (strassen_st n a b h) P'))
   \<and> (y \<noteq> self \<longrightarrow> snd (combine self R_11 R_12 R_21 R_22 st) y = st y)
   \<and> (0 < m_size (st self)
        \<and> m_size (st self) = 2 * m_size (st R_11) \<and> m_size (st self) = 2 * m_size (st R_12)
        \<and> m_size (st self) = 2 * m_size (st R_21) \<and> m_size (st self) = 2 * m_size (st R_22)
      \<longrightarrow>
        snd (combine self R_11 R_12 R_21 R_22 st) R_11 = st R_11
      \<and> snd (combine self R_11 R_12 R_21 R_22 st) R_12 = st R_12
      \<and> snd (combine self R_11 R_12 R_21 R_22 st) R_21 = st R_21
      \<and> snd (combine self R_11 R_12 R_21 R_22 st) R_22 = st R_22)"
proof -
  have read: "objs (snd (partition_st a row_start col_start h)) x = objs h x
     \<and> objs (snd (operator_plus_st a b h)) x = objs h x
     \<and> objs (snd (operator_minus_st a b h)) x = objs h x
     \<and> objs (snd (multiply_st n a b h)) x = objs h x
     \<and> objs (snd (strassen_st n a b h)) x = objs h x" if "x < next_free h"
    using that
    by (simp add: preservesD preserves_partition_st preserves_operator_plus_st
        preserves_operator_minus_st preserves_multiply_st preserves_strassen_st)
  have new: "(partition_mx (objs h a) row_start col_start = Inr Q
          \<longrightarrow> new_result h (partition_st a row_start col_start h) Q)
     \<and> (operator_plus (objs h a) (objs h b) = Inr S
          \<longrightarrow> new_result h (operator_plus_st a b h) S)
     \<and> (operator_minus (objs h a) (objs h b) = Inr D
          \<longrightarrow> new_result h (operator_minus_st a b h) D)
     \<and> (multiply (objs h a) (objs h b) = Inr P \<and> m_size (objs h a) \<le> n
          \<longrightarrow> new_result h (multiply_st n a b h) P)
     \<and> (strassen (objs h a) (objs h b) = Inr P' \<and> m_size (objs h a) \<le> n
          \<longrightarrow> new_result h (strassen_st n a b h) P')"
    if ab: "a < next_free h \<and> b < next_free h"
  proof -
    from ab have g: "holds_all h {(a, objs h a), (b, objs h b)}"
      by (simp add: holds_all_def)
    show ?thesis
      by (intro conjI impI makes_new_result[OF _ g] makes_partition_st makes_operator_plus_st
          makes_operator_minus_st multiply_st_makes strassen_st_makes) simp_all
  qed
  have frame: "snd (combine self R_11 R_12 R_21 R_22 st) z = st z" if "z \<noteq> self" for z
    using combine_frame[of self R_11 R_12 R_21 R_22 st _ _ z] that by (metis prod.collapse)
  have other: "z \<noteq> self" if "0 < m_size (st self)" "m_size (st self) = 2 * m_size (st z)" for z
    using that by auto
  from read new frame other show ?thesis by simp
qed

theorem operands_unchanged_witness:
  "objs (snd (partition_st 0 0 1
       (heap_of [\<lparr>m_size = 2, m_data = [1, 2, 3, 4]\<rparr>, \<lparr>m_size = 2, m_data = [5, 6, 7, 8]\<rparr>]))) 0
     = \<lparr>m_size = 2, m_data = [1, 2, 3, 4]\<rparr>
   \<and> objs (snd (operator_plus_st 0 1
       (heap_of [\<lparr>m_size = 2, m_data = [1, 2, 3, 4]\<rparr>, \<lparr>m_size = 2, m_data = [5, 6, 7, 8]\<rparr>]))) 0
     = \<lparr>m_size = 2, m_data = [1, 2, 3, 4]\<rparr>
   \<and> objs (snd (operator_minus_st 0 1
       (heap_of [\<lparr>m_size = 2, m_data = [1, 2, 3, 4]\<rparr>, \<lparr>m_size = 2, m_data = [5, 6, 7, 8]\<rparr>]))) 1
     = \<lparr>m_size = 2, m_data = [5, 6, 7, 8]\<rparr>
   \<and> objs (snd (multiply_st 2 0 1
       (heap_of [\<lparr>m_size = 2, m_data = [1, 2, 3, 4]\<rparr>, \<lparr>m_size = 2, m_data = [5, 6, 7, 8]\<rparr>]))) 0
     = \<lparr>m_size = 2, m_data = [1, 2, 3, 4]\<rparr>
   \<and> objs (snd (multiply_st 2 0 1
       (heap_of [\<lparr>m_size = 2, m_data = [1, 2, 3, 4]\<rparr>, \<lparr>m_size = 2, m_data = [5, 6, 7, 8]\<rparr>]))) 1
     = \<lparr>m_size = 2, m_data = [5, 6, 7, 8]\<rparr>
   \<and> objs (snd (strassen_st 2 0 1
       (heap_of [\<lparr>m_size = 2, m_data = [1, 2, 3, 4]\<rparr>, \<lparr>m_size = 2, m_data = [5, 6, 7, 8]\<rparr>]))) 0
     = \<lparr>m_size = 2, m_data = [1, 2, 3, 4]\<rparr>
   \<and> objs (snd (strassen_st 2 0 1
       (heap_of [\<lparr>m_size = 2, m_data = [1, 2, 3, 4]\<rparr>, \<lparr>m_size = 2, m_data = [5, 6, 7, 8]\<rparr>]))) 1
     = \<lparr>m_size = 2, m_data = [5, 6, 7, 8]\<rparr>
   \<and> new_result (heap_of [\<lparr>m_size = 2, m_data = [1, 2, 3, 4]\<rparr>, \<lparr>m_size = 2, m_data = [5, 6, 7, 8]\<rparr>])
       (partition_st 0 0 1
         (heap_of [\<lparr>m_size = 2, m_data = [1, 2, 3, 4]\<rparr>, \<lparr>m_size = 2, m_data = [5, 6, 7, 8]\<rparr>]))
       \<lparr>m_size = 1, m_data = [2]\<rparr>
   \<and> new_result (heap_of [\<lparr>m_size = 2, m_data = [1, 2, 3, 4]\<rparr>, \<lparr>m_size = 2, m_data = [5, 6, 7, 8]\<rparr>])
       (operator_plus_st 0 1
         (heap_of [\<lparr>m_size = 2, m_data = [1, 2, 3, 4]\<rparr>, \<lparr>m_size = 2, m_data = [5, 6, 7, 8]\<rparr>]))
       \<lparr>m_size = 2, m_data = [6, 8, 10, 12]\<rparr>
   \<and> new_result (heap_of [\<lparr>m_size = 2, m_data = [1, 2, 3, 4]\<rparr>, \<lparr>m_size = 2, m_data = [5, 6, 7, 8]\<rparr>])
       (operator_minus_st 0 1
         (heap_of [\<lparr>m_size = 2, m_data = [1, 2, 3, 4]\<rparr>, \<lparr>m_size = 2, m_data = [5, 6, 7, 8]\<rparr>]))
       \<lparr>m_size = 2, m_data = [- 4, - 4, - 4, - 4]\<rparr>
   \<and> new_result (heap_of [\<lparr>m_size = 2, m_data = [1, 2, 3, 4]\<rparr>, \<lparr>m_size = 2, m_data = [5, 6, 7, 8]\<rparr>])
       (multiply_st 2 0 1
         (heap_of [\<lparr>m_size = 2, m_data = [1, 2, 3, 4]\<rparr>, \<lparr>m_size = 2, m_data = [5, 6, 7, 8]\<rparr>]))
       \<lparr>m_size = 2, m_data = [19, 22, 43, 50]\<rparr>
   \<and> new_result (heap_of [\<lparr>m_size = 2, m_data = [1, 2, 3, 4]\<rparr>, \<lparr>m_size = 2, m_data = [5, 6, 7, 8]\<rparr>])
       (strassen_st 2 0 1
         (heap_of [\<lparr>m_size = 2, m_data = [1, 2, 3, 4]\<rparr>, \<lparr>m_size = 2, m_data = [5, 6, 7, 8]\<rparr>]))
       \<lparr>m_size = 2, m_data = [19, 22, 43, 50]\<rparr>
   \<and> snd (combine 0 1 2 3 4
          (locals \<lparr>m_size = 2, m_data = [0, 0, 0, 0]\<rparr> \<lparr>m_size = 1, m_data = [1]\<rparr>
            \<lparr>m_size = 1, m_data = [2]\<rparr> \<lparr>m_size = 1, m_data = [3]\<rparr> \<lparr>m_size = 1, m_data = [4]\<rparr>)) 1
       = \<lparr>m_size = 1, m_data = [1]\<rparr>
   \<and> snd (combine 0 1 2 3 4
          (locals \<lparr>m_size = 2, m_data = [0, 0, 0, 0]\<rparr> \<lparr>m_size = 1, m_data = [1]\<rparr>
            \<lparr>m_size = 1, m_data = [2]\<rparr> \<lparr>m_size = 1, m_data = [3]\<rparr> \<lparr>m_size = 1, m_data = [4]\<rparr>)) 4
       = \<lparr>m_size = 1, m_data = [4]\<rparr>"
proof -
  let ?A = "\<lparr>m_size = 2, m_data = [1, 2, 3, 4 :: cint]\<rparr>"
  let ?B = "\<lparr>m_size = 2, m_data = [5, 6, 7, 8 :: cint]\<rparr>"
  let ?h = "heap_of [?A, ?B]"
  let ?st = "locals \<lparr>m_size = 2, m_data = [0, 0, 0, 0]\<rparr> \<lparr>m_size = 1, m_data = [1]\<rparr>
            \<lparr>m_size = 1, m_data = [2]\<rparr> \<lparr>m_size = 1, m_data = [3]\<rparr> \<lparr>m_size = 1, m_data = [4]\<rparr>"
  have x0: "0 < next_free ?h" and x1: "1 < next_free ?h"
    and ab: "0 < next_free ?h \<and> 1 < next_free ?h" by simp_all
  have n0: "(1::nat) \<noteq> 0" by simp
  have st1: "?st 1 = \<lparr>m_size = 1, m_data = [1]\<rparr>" by (simp add: locals_def)
  have st4: "?st 4 = \<lparr>m_size = 1, m_data = [4]\<rparr>" by (simp add: locals_def)
  have sz: "0 < m_size (?st 0)
        \<and> m_size (?st 0) = 2 * m_size (?st 1) \<and> m_size (?st 0) = 2 * m_size (?st 2)
        \<and> m_size (?st 0) = 2 * m_size (?st 3) \<and> m_size (?st 0) = 2 * m_size (?st 4)"
    by (simp add: locals_def)
  have o: "objs ?h 0 = ?A" "objs ?h 1 = ?B" by simp_all
  have p: "partition_mx (objs ?h 0) 0 1 = Inr \<lparr>m_size = 1, m_data = [2]\<rparr>"
    unfolding o by (rule elementwise_2x2(1))
  have s: "operator_plus (objs ?h 0) (objs ?h 1) = Inr \<lparr>m_size = 2, m_data = [6, 8, 10, 12]\<rparr>"
    unfolding o by (rule elementwise_2x2(2))
  have d: "operator_minus (objs ?h 0) (objs ?h 1)
        = Inr \<lparr>m_size = 2, m_data = [- 4, - 4, - 4, - 4]\<rparr>"
    unfolding o by (rule elementwise_2x2(3))
  have m: "multiply (objs ?h 0) (objs ?h 1) = Inr \<lparr>m_size = 2, m_data = [19, 22, 43, 50]\<rparr>
        \<and> m_size (objs ?h 0) \<le> 2"
    unfolding o by (rule conjI[OF products_2x2(1)]) simp
  have t: "strassen (objs ?h 0) (objs ?h 1) = Inr \<lparr>m_size = 2, m_data = [19, 22, 43, 50]\<rparr>
        \<and> m_size (objs ?h 0) \<le> 2"
    unfolding o by (rule conjI[OF products_2x2(2)]) simp
  note f0 = operands_unchanged[of 0 ?h 0 0 1 1 2, THEN conjunct1, rule_format, OF x0]
  note f1 = operands_unchanged[of 1 ?h 0 0 1 1 2, THEN conjunct1, rule_format, OF x1]
  note r = operands_unchanged[of 0 ?h 0 0 1 1 2, THEN conjunct2, THEN conjunct1, rule_format, OF ab]
  note c = operands_unchanged[of 0 ?h 0 0 1 1 2 _ _ _ _ _ 1 0 1 2 3 4 ?st,
      THEN conjunct2, THEN conjunct2, THEN conjunct1, rule_format, OF n0]
  note q = operands_unchanged[of 0 ?h 0 0 1 1 2 _ _ _ _ _ 1 0 1 2 3 4 ?st,
      THEN conjunct2, THEN conjunct2, THEN conjunct2, rule_format, OF sz]
  note r1 = r[THEN conjunct1, rule_format, OF p]
    r[THEN conjunct2, THEN conjunct1, rule_format, OF s]
    r[THEN conjunct2, THEN conjunct2, THEN conjunct1, rule_format, OF d]
    r[THEN conjunct2, THEN conjunct2, THEN conjunct2, THEN conjunct1, rule_format, OF m]
    r[THEN conjunct2, THEN conjunct2, THEN conjunct2, THEN conjunct2, rule_format, OF t]
  from f0 f1 r1 c q show ?thesis unfolding o st1 st4 by blast
qed

section \<open>The constructor's test, and the products of strassen\<close>

text \<open>
  Claim C10. Constructing a matrix of size 0 fails with \<open>InvalidArgument\<close>: the size converts
  to the double \<open>0\<close>, \<open>log2\<close> of it is minus infinity, \<open>fmod\<close> of that is a NaN, and a NaN is
  unequal to \<open>0\<close>, so the constructor throws.
\<close>

theorem construct_zero_fails:
  "to_double 0 = Finite 0
   \<and> log2_d (to_double 0) = NegInf
   \<and> fmod_d (log2_d (to_double 0)) (Finite 1) = NaN
   \<and> neq_d (fmod_d (log2_d (to_double 0)) (Finite 1)) (Finite 0)
   \<and> Matrix_ctor 0 is_empty rnd = Inl InvalidArgument"
  by (simp add: to_double_def Matrix_ctor_def not_power_of_2_def)

lemma floorlog_2_53_1: "floorlog 2 9007199254740993 = 54"
proof -
  have "floorlog 2 9007199254740993 \<le> 54" by (rule floorlog_leI) simp_all
  moreover have "Suc 53 \<le> floorlog 2 9007199254740993" by (rule floorlog_ge_SucI) simp_all
  ultimately show ?thesis by simp
qed

lemma to_double_2_53_1: "to_double 9007199254740993 = Finite (2 ^ 53)"
  unfolding to_double_def Let_def floorlog_2_53_1 by simp

lemma log2_d_pos: "0 < x \<Longrightarrow> log2_d (Finite x) = Finite (log 2 x)"
  by simp

lemma fmod_d_nat: "fmod_d (Finite (real k)) (Finite 1) = Finite 0"
  by (simp add: trunc_def)

lemma accepted_2_53_1: "\<not> not_power_of_2 9007199254740993"
proof -
  have "log 2 ((2::real) ^ 53) = real 53" by (rule log_pow_cancel) simp_all
  moreover have "log2_d (Finite (2 ^ 53)) = Finite (log 2 (2 ^ 53))"
    by (rule log2_d_pos) simp
  ultimately have "log2_d (to_double 9007199254740993) = Finite (real 53)"
    by (simp only: to_double_2_53_1)
  then show ?thesis
    unfolding not_power_of_2_def by (simp only: fmod_d_nat neq_d.simps) simp
qed

text \<open>
  Claim C8 says that the constructor fails with \<open>InvalidArgument\<close> exactly when the size is
  not a power of two. The size \<open>2 ^ 53 + 1 = 9007199254740993\<close> is odd, so it is not a power
  of two; it converts to the double \<open>2 ^ 53\<close>, whose \<open>log2\<close> is \<open>53\<close>, and the constructor does
  not throw \<open>InvalidArgument\<close>.
\<close>

theorem construct_2_53_1_accepted:
  "odd (9007199254740993 :: nat)
   \<and> \<not> is_power_of_2 9007199254740993
   \<and> to_double 9007199254740993 = Finite (2 ^ 53)
   \<and> Matrix_ctor 9007199254740993 is_empty rnd \<noteq> Inl InvalidArgument"
proof -
  have "odd (9007199254740993 :: nat)" by simp
  moreover from this have "\<not> is_power_of_2 9007199254740993"
    by (subst is_power_of_2.simps) simp
  moreover have "Matrix_ctor 9007199254740993 is_empty rnd \<noteq> Inl InvalidArgument"
    using accepted_2_53_1 by (simp add: Matrix_ctor_def Let_def)
  ultimately show ?thesis using to_double_2_53_1 by blast
qed

text \<open>
  Below \<open>2 ^ 32\<close>, where a matrix holds all its \<open>size * size\<close> elements, the test of the
  constructor is exact, and the empty matrix is all zeros.
\<close>

lemma Matrix_ctor_small:
  assumes "s < 2 ^ 32"
  shows "Matrix_ctor s is_empty rnd = Inl InvalidArgument \<longleftrightarrow> \<not> is_power_of_2 s"
    and "is_power_of_2 s \<Longrightarrow>
           Matrix_ctor s True rnd = Inr \<lparr>m_size = s, m_data = replicate (s * s) 0\<rparr>"
proof -
  have "s < 2 ^ 53" using assms by (rule less_trans) simp
  then have np: "not_power_of_2 s \<longleftrightarrow> \<not> is_power_of_2 s" by (rule not_power_of_2_iff)
  then show "Matrix_ctor s is_empty rnd = Inl InvalidArgument \<longleftrightarrow> \<not> is_power_of_2 s"
    by (simp add: Matrix_ctor_def Let_def)
  have "size_t_wrap (s * s) = s * s" using square_bound[OF assms] by (rule size_t_wrap_id)
  then show "is_power_of_2 s \<Longrightarrow>
           Matrix_ctor s True rnd = Inr \<lparr>m_size = s, m_data = replicate (s * s) 0\<rparr>"
    using np by (simp add: Matrix_ctor_empty)
qed

text \<open>The sizes that the specification names: 3, 5 and 6 fail, 1, 2, 4 and 8 succeed.\<close>

lemma Matrix_ctor_examples:
  "Matrix_ctor 3 is_empty rnd = Inl InvalidArgument"
  "Matrix_ctor 5 is_empty rnd = Inl InvalidArgument"
  "Matrix_ctor 6 is_empty rnd = Inl InvalidArgument"
  "Matrix_ctor 1 True rnd = Inr \<lparr>m_size = 1, m_data = replicate 1 0\<rparr>"
  "Matrix_ctor 2 True rnd = Inr \<lparr>m_size = 2, m_data = replicate 4 0\<rparr>"
  "Matrix_ctor 4 True rnd = Inr \<lparr>m_size = 4, m_data = replicate 16 0\<rparr>"
  "Matrix_ctor 8 True rnd = Inr \<lparr>m_size = 8, m_data = replicate 64 0\<rparr>"
proof -
  have n: "\<not> is_power_of_2 3" "\<not> is_power_of_2 5" "\<not> is_power_of_2 6"
    and p: "is_power_of_2 1" "is_power_of_2 2" "is_power_of_2 4" "is_power_of_2 8"
    by (simp_all add: is_power_of_2.simps)
  have b: "(3::nat) < 2 ^ 32" "(5::nat) < 2 ^ 32" "(6::nat) < 2 ^ 32" "(1::nat) < 2 ^ 32"
    "(2::nat) < 2 ^ 32" "(4::nat) < 2 ^ 32" "(8::nat) < 2 ^ 32"
    by simp_all
  from Matrix_ctor_small(1)[OF b(1)] n(1)
  show "Matrix_ctor 3 is_empty rnd = Inl InvalidArgument" by blast
  from Matrix_ctor_small(1)[OF b(2)] n(2)
  show "Matrix_ctor 5 is_empty rnd = Inl InvalidArgument" by blast
  from Matrix_ctor_small(1)[OF b(3)] n(3)
  show "Matrix_ctor 6 is_empty rnd = Inl InvalidArgument" by blast
  from Matrix_ctor_small(2)[OF b(4) p(1)]
  show "Matrix_ctor 1 True rnd = Inr \<lparr>m_size = 1, m_data = replicate 1 0\<rparr>" by simp
  from Matrix_ctor_small(2)[OF b(5) p(2)]
  show "Matrix_ctor 2 True rnd = Inr \<lparr>m_size = 2, m_data = replicate 4 0\<rparr>" by simp
  from Matrix_ctor_small(2)[OF b(6) p(3)]
  show "Matrix_ctor 4 True rnd = Inr \<lparr>m_size = 4, m_data = replicate 16 0\<rparr>" by simp
  from Matrix_ctor_small(2)[OF b(7) p(4)]
  show "Matrix_ctor 8 True rnd = Inr \<lparr>m_size = 8, m_data = replicate 64 0\<rparr>" by simp
qed

lemma two_power_Suc_gt_1: "\<not> (2::nat) ^ Suc n \<le> 1"
proof -
  have "(1::nat) \<le> 2 ^ n" by simp
  then have "(2::nat) \<le> 2 * 2 ^ n" by linarith
  then show ?thesis unfolding power_Suc by linarith
qed

lemma multiply_mults_pow: "multiply_mults (2 ^ n) = 8 ^ n"
proof (induction n)
  case 0
  show ?case by (subst multiply_mults.simps) simp
next
  case (Suc n)
  have "multiply_mults (2 ^ Suc n) = 8 * multiply_mults (2 ^ Suc n div 2)"
    using two_power_Suc_gt_1[of n] by (subst multiply_mults.simps) simp
  with Suc show ?case by simp
qed

lemma strassen_spec_mults_pow: "strassen_spec_mults (2 ^ n) = 7 ^ n"
proof (induction n)
  case 0
  show ?case by (subst strassen_spec_mults.simps) simp
next
  case (Suc n)
  have "strassen_spec_mults (2 ^ Suc n) = 7 * strassen_spec_mults (2 ^ Suc n div 2)"
    using two_power_Suc_gt_1[of n] by (subst strassen_spec_mults.simps) simp
  with Suc show ?case by simp
qed

lemma strassen_mults_pow: "strassen_mults (2 ^ Suc n) = 7 * 8 ^ n"
proof -
  have "strassen_mults (2 ^ Suc n) = 7 * multiply_mults (2 ^ Suc n div 2)"
    using two_power_Suc_gt_1[of n] unfolding strassen_mults_def by simp
  then show ?thesis by (simp add: multiply_mults_pow)
qed

lemma upt_4: "[0..<4] = [0, 1, 2, 3]"
  by (simp add: upt_rec)

lemma reference_4x4_identity:
  "reference_product
     \<lparr>m_size = 4, m_data = [1, 2, 3, 4, 5, 6, 7, 8, 9, 10, 11, 12, 13, 14, 15, 16]\<rparr>
     \<lparr>m_size = 4, m_data = [1, 0, 0, 0, 0, 1, 0, 0, 0, 0, 1, 0, 0, 0, 0, 1]\<rparr>
   = \<lparr>m_size = 4, m_data = [1, 2, 3, 4, 5, 6, 7, 8, 9, 10, 11, 12, 13, 14, 15, 16]\<rparr>"
  by (simp add: reference_product_def upt_4)

text \<open>
  Claim C3 says that each of the seven products of \<open>strassen\<close> is a recursive call of
  \<open>strassen\<close>. In the source each is a call of \<open>multiply\<close> (\<open>strassen_P1\<close> to \<open>strassen_P7\<close>):
  on operands of size 4 the seven products are 2x2 products by the eight-product baseline,
  56 element multiplications, where the recursion of the claim makes 49. The matrix
  returned is not affected: for the 4x4 matrix of 1..16 and the identity it is the first
  operand.
\<close>

theorem strassen_products_not_recursive:
  "strassen_mults 4 = 56 \<and> strassen_spec_mults 4 = 49
   \<and> strassen \<lparr>m_size = 4, m_data = [1, 2, 3, 4, 5, 6, 7, 8, 9, 10, 11, 12, 13, 14, 15, 16]\<rparr>
        \<lparr>m_size = 4, m_data = [1, 0, 0, 0, 0, 1, 0, 0, 0, 0, 1, 0, 0, 0, 0, 1]\<rparr>
      = Inr \<lparr>m_size = 4, m_data = [1, 2, 3, 4, 5, 6, 7, 8, 9, 10, 11, 12, 13, 14, 15, 16]\<rparr>"
proof -
  let ?A = "\<lparr>m_size = 4, m_data = [1, 2, 3, 4, 5, 6, 7, 8, 9, 10, 11, 12, 13, 14, 15, 16 :: cint]\<rparr>"
  let ?B = "\<lparr>m_size = 4, m_data = [1, 0, 0, 0, 0, 1, 0, 0, 0, 0, 1, 0, 0, 0, 0, 1 :: cint]\<rparr>"
  have "strassen_mults (2 ^ Suc 1) = 7 * 8 ^ 1" by (rule strassen_mults_pow)
  then have a: "strassen_mults 4 = 56" by simp
  have "strassen_spec_mults (2 ^ 2) = 7 ^ 2" by (rule strassen_spec_mults_pow)
  then have b: "strassen_spec_mults 4 = 49" by simp
  have v: "valid ?A" "valid ?B" by (simp_all add: valid_def is_power_of_2.simps)
  have sz: "m_size ?A = m_size ?B" by simp
  have "strassen ?A ?B = Inr (reference_product ?A ?B)"
    using strassen_valid[OF v sz] reference_product_mk[of ?B ?A] by simp
  then have c: "strassen ?A ?B = Inr ?A" by (simp only: reference_4x4_identity)
  from a b c show ?thesis by blast
qed

end
